theory Spec2Isabelle
  imports Complex_Main
begin

section \<open>Numbers\<close>

text \<open>
  A JavaScript number is a finite value, one of the two infinities, or NaN. Finite
  arithmetic is taken to be exact: rounding to binary64, rounding to binary32 when a value
  is stored in a \<^verbatim>\<open>Float32Array\<close>, overflow of a finite result, and the sign of zero
  are not represented. Everything else follows the language: the special values propagate
  as IEEE 754 prescribes, a division by zero yields an infinity or NaN, and every comparison
  with NaN is false.
\<close>

datatype jsnum = Fin real | PInf | NInf | NaN

fun jneg :: "jsnum \<Rightarrow> jsnum" where
  "jneg (Fin a) = Fin (- a)"
| "jneg PInf = NInf"
| "jneg NInf = PInf"
| "jneg NaN = NaN"

fun jpos :: "jsnum \<Rightarrow> bool" where
  "jpos (Fin a) = (0 < a)"
| "jpos PInf = True"
| "jpos NInf = False"
| "jpos NaN = False"

fun jadd :: "jsnum \<Rightarrow> jsnum \<Rightarrow> jsnum" where
  "jadd (Fin a) (Fin b) = Fin (a + b)"
| "jadd NaN y = NaN"
| "jadd x NaN = NaN"
| "jadd PInf NInf = NaN"
| "jadd NInf PInf = NaN"
| "jadd PInf y = PInf"
| "jadd x PInf = PInf"
| "jadd NInf y = NInf"
| "jadd x NInf = NInf"

definition jsub :: "jsnum \<Rightarrow> jsnum \<Rightarrow> jsnum" where
  "jsub x y = jadd x (jneg y)"

fun jmul :: "jsnum \<Rightarrow> jsnum \<Rightarrow> jsnum" where
  "jmul (Fin a) (Fin b) = Fin (a * b)"
| "jmul NaN y = NaN"
| "jmul x NaN = NaN"
| "jmul x y = (if x = Fin 0 \<or> y = Fin 0 then NaN
               else if jpos x = jpos y then PInf else NInf)"

fun jdiv :: "jsnum \<Rightarrow> jsnum \<Rightarrow> jsnum" where
  "jdiv NaN y = NaN"
| "jdiv x NaN = NaN"
| "jdiv (Fin a) (Fin b) =
     (if b \<noteq> 0 then Fin (a / b)
      else if a = 0 then NaN else if 0 < a then PInf else NInf)"
| "jdiv (Fin a) y = Fin 0"
| "jdiv x (Fin b) = (if jpos x = (0 \<le> b) then PInf else NInf)"
| "jdiv x y = NaN"

fun jlt :: "jsnum \<Rightarrow> jsnum \<Rightarrow> bool" where
  "jlt NaN y = False"
| "jlt x NaN = False"
| "jlt (Fin a) (Fin b) = (a < b)"
| "jlt x PInf = (x \<noteq> PInf)"
| "jlt NInf y = (y \<noteq> NInf)"
| "jlt x y = False"

fun jle :: "jsnum \<Rightarrow> jsnum \<Rightarrow> bool" where
  "jle NaN y = False"
| "jle x NaN = False"
| "jle (Fin a) (Fin b) = (a \<le> b)"
| "jle x PInf = True"
| "jle NInf y = True"
| "jle x y = False"

definition jgt :: "jsnum \<Rightarrow> jsnum \<Rightarrow> bool" where
  "jgt x y = jlt y x"

definition jge :: "jsnum \<Rightarrow> jsnum \<Rightarrow> bool" where
  "jge x y = jle y x"

text \<open>The library functions the code calls: \<^verbatim>\<open>Math.floor\<close>, \<^verbatim>\<open>Math.sqrt\<close>,
  \<^verbatim>\<open>Math.cos\<close>, \<^verbatim>\<open>Math.sin\<close>, \<^verbatim>\<open>Math.log2\<close>, \<^verbatim>\<open>Math.log10\<close>,
  \<^verbatim>\<open>Math.pow\<close> with base 10, and \<^verbatim>\<open>Math.max\<close>.\<close>

fun jfloor :: "jsnum \<Rightarrow> jsnum" where
  "jfloor (Fin a) = Fin (of_int \<lfloor>a\<rfloor>)"
| "jfloor x = x"


fun jcos :: "jsnum \<Rightarrow> jsnum" where
  "jcos (Fin a) = Fin (cos a)"
| "jcos x = NaN"

fun jsin :: "jsnum \<Rightarrow> jsnum" where
  "jsin (Fin a) = Fin (sin a)"
| "jsin x = NaN"

fun jlog :: "real \<Rightarrow> jsnum \<Rightarrow> jsnum" where
  "jlog b (Fin a) = (if 0 < a then Fin (log b a) else if a = 0 then NInf else NaN)"
| "jlog b PInf = PInf"
| "jlog b x = NaN"

fun jpow10 :: "jsnum \<Rightarrow> jsnum" where
  "jpow10 (Fin a) = Fin (10 powr a)"
| "jpow10 PInf = PInf"
| "jpow10 NInf = Fin 0"
| "jpow10 NaN = NaN"

fun jmax :: "jsnum \<Rightarrow> jsnum \<Rightarrow> jsnum" where
  "jmax NaN y = NaN"
| "jmax x NaN = NaN"
| "jmax x y = (if jle x y then y else x)"

abbreviation jint :: "int \<Rightarrow> jsnum" where
  "jint i \<equiv> Fin (of_int i)"

definition is_finite :: "jsnum \<Rightarrow> bool" where
  "is_finite x = (case x of Fin a \<Rightarrow> True | _ \<Rightarrow> False)"

section \<open>32-bit integer operators\<close>

text \<open>\<^verbatim>\<open>>>\<close> and \<^verbatim>\<open><<\<close> convert their left operand to a signed 32-bit integer and take
  the shift count modulo 32.\<close>

definition to_int32 :: "int \<Rightarrow> int" where
  "to_int32 x = (x + 2 ^ 31) mod 2 ^ 32 - 2 ^ 31"

definition sar1 :: "int \<Rightarrow> int" where
  "sar1 x = to_int32 x div 2"

definition shl_one :: "int \<Rightarrow> int" where
  "shl_one s = to_int32 (2 ^ nat (s mod 32))"

section \<open>Typed arrays\<close>

datatype error = RangeError | TypeError

text \<open>An element read outside the array gives \<^verbatim>\<open>undefined\<close>, which every use in this
  code turns into NaN; a write outside the array is ignored. A key that is not an integer
  names no element.\<close>

definition rd :: "jsnum list \<Rightarrow> int \<Rightarrow> jsnum" where
  "rd xs i = (if 0 \<le> i \<and> i < int (length xs) then xs ! nat i else NaN)"

definition wr :: "jsnum list \<Rightarrow> int \<Rightarrow> jsnum \<Rightarrow> jsnum list" where
  "wr xs i v = (if 0 \<le> i \<and> i < int (length xs) then xs[nat i := v] else xs)"

definition rd_key :: "jsnum list \<Rightarrow> real \<Rightarrow> jsnum" where
  "rd_key xs r = (if of_int \<lfloor>r\<rfloor> = r then rd xs \<lfloor>r\<rfloor> else NaN)"

text \<open>\<^verbatim>\<open>new Float32Array(len)\<close>: the length is truncated towards zero, a negative length is
  a RangeError, the elements start at 0. Memory is taken to be unbounded.\<close>

definition trunc :: "real \<Rightarrow> int" where
  "trunc r = (if 0 \<le> r then \<lfloor>r\<rfloor> else \<lceil>r\<rceil>)"

definition new_Float32Array :: "real \<Rightarrow> error + jsnum list" where
  "new_Float32Array len =
     (if trunc len < 0 then Inl RangeError else Inr (replicate (nat (trunc len)) (Fin 0)))"

text \<open>Sequencing of steps that may not return.\<close>

fun ofold :: "('a \<Rightarrow> 's \<Rightarrow> 's option) \<Rightarrow> 'a list \<Rightarrow> 's \<Rightarrow> 's option" where
  "ofold f [] s = Some s"
| "ofold f (x # xs) s = (case f x s of None \<Rightarrow> None | Some s' \<Rightarrow> ofold f xs s')"

text \<open>The iterations of \<^verbatim>\<open>for (let i = 0; i < bound; i++)\<close> for a numeric bound: none when
  the comparison is false at once, and no end when the bound is \<open>+\<infinity>\<close>.\<close>

fun iterations :: "jsnum \<Rightarrow> nat option" where
  "iterations (Fin r) = Some (nat \<lceil>r\<rceil>)"
| "iterations PInf = None"
| "iterations x = Some 0"


section \<open>The FFT engine\<close>

record FFT =
  fft_n :: int
  fft_m :: jsnum
  fft_cos :: "jsnum list"
  fft_sin :: "jsnum list"

text \<open>The constructor allocates both tables with \<open>n / 2\<close> entries and fills them for
  \<open>i < n / 2\<close>.\<close>

definition FFT_new :: "int \<Rightarrow> error + FFT" where
  "FFT_new n =
     (case new_Float32Array (of_int n / 2) of
        Inl e \<Rightarrow> Inl e
      | Inr c0 \<Rightarrow>
         (case new_Float32Array (of_int n / 2) of
            Inl e \<Rightarrow> Inl e
          | Inr s0 \<Rightarrow>
              Inr \<lparr> fft_n = n,
                    fft_m = jlog 2 (jint n),
                    fft_cos = fold (\<lambda>i c. wr c (int i)
                                 (jcos (jdiv (Fin (2 * pi * real i)) (jint n))))
                               [0 ..< nat \<lceil>real_of_int n / 2\<rceil>] c0,
                    fft_sin = fold (\<lambda>i c. wr c (int i)
                                 (jsin (jdiv (Fin (2 * pi * real i)) (jint n))))
                               [0 ..< nat \<lceil>real_of_int n / 2\<rceil>] s0 \<rparr>))"

text \<open>The inner loop of the bit-reversal pass, \<^verbatim>\<open>while (k <= j) { j -= k; k >>= 1; }\<close>.
  Nothing in the loop bounds it, so it is a partial function: \<open>None\<close> means that the loop
  does not end.\<close>

partial_function (option) bitrev_while :: "int \<Rightarrow> int \<Rightarrow> (int \<times> int) option" where
  "bitrev_while j k = (if k \<le> j then bitrev_while (j - k) (sar1 k) else Some (j, k))"

definition bitrev_step ::
  "int \<Rightarrow> nat \<Rightarrow> jsnum list \<times> jsnum list \<times> int \<Rightarrow> (jsnum list \<times> jsnum list \<times> int) option"
where
  "bitrev_step n i = (\<lambda>(re, im, j).
     let (re1, im1) =
           (if int i < j then
              (let tr = rd re (int i);
                   ti = rd im (int i);
                   re' = wr re (int i) (rd re j);
                   im' = wr im (int i) (rd im j)
               in (wr re' j tr, wr im' j ti))
            else (re, im))
     in case bitrev_while j (sar1 n) of
          None \<Rightarrow> None
        | Some (j', k') \<Rightarrow> Some (re1, im1, j' + k'))"

definition butterfly ::
  "jsnum \<Rightarrow> jsnum \<Rightarrow> int \<Rightarrow> int \<Rightarrow> jsnum list \<times> jsnum list \<Rightarrow> jsnum list \<times> jsnum list"
where
  "butterfly w_r w_i m2 k = (\<lambda>(re, im).
     let tr = jsub (jmul w_r (rd re (k + m2))) (jmul w_i (rd im (k + m2)));
         ti = jadd (jmul w_r (rd im (k + m2))) (jmul w_i (rd re (k + m2)));
         re1 = wr re (k + m2) (jsub (rd re k) tr);
         im1 = wr im (k + m2) (jsub (rd im k) ti);
         re2 = wr re1 k (jadd (rd re1 k) tr);
         im2 = wr im1 k (jadd (rd im1 k) ti)
     in (re2, im2))"

text \<open>\<^verbatim>\<open>for (let k = j; k < this.n; k += m)\<close>: with a stride that is not positive the loop
  would not end.\<close>

function butterfly_loop ::
  "jsnum \<Rightarrow> jsnum \<Rightarrow> int \<Rightarrow> int \<Rightarrow> int \<Rightarrow> int \<Rightarrow> jsnum list \<times> jsnum list
     \<Rightarrow> (jsnum list \<times> jsnum list) option"
where
  "butterfly_loop w_r w_i n m m2 k ri =
     (if k < n then
        (if m \<le> 0 then None
         else butterfly_loop w_r w_i n m m2 (k + m) (butterfly w_r w_i m2 k ri))
      else Some ri)"
  by pat_completeness auto
termination
  by (relation "measure (\<lambda>(w_r, w_i, n, m, m2, k, ri). nat (n - k))") auto

declare butterfly_loop.simps [simp del]

definition stage :: "FFT \<Rightarrow> int \<Rightarrow> jsnum list \<times> jsnum list \<Rightarrow> (jsnum list \<times> jsnum list) option"
where
  "stage fft s ri =
     (let m = shl_one s; m2 = sar1 m
      in ofold (\<lambda>j ri.
           let w_r = rd_key (fft_cos fft) (real j * (real_of_int (fft_n fft) / real_of_int m));
               w_i = jneg (rd_key (fft_sin fft) (real j * (real_of_int (fft_n fft) / real_of_int m)))
           in butterfly_loop w_r w_i (fft_n fft) m m2 (int j) ri)
         [0 ..< nat m2] ri)"

text \<open>\<^verbatim>\<open>for (let s = 1; s <= this.m; s++)\<close> with \<open>this.m = Math.log2(n)\<close>.\<close>

fun stages :: "jsnum \<Rightarrow> int list option" where
  "stages (Fin x) = Some [1 .. \<lfloor>x\<rfloor>]"
| "stages PInf = None"
| "stages x = Some []"

definition FFT_forward ::
  "FFT \<Rightarrow> jsnum list \<times> jsnum list \<Rightarrow> (jsnum list \<times> jsnum list) option"
where
  "FFT_forward fft = (\<lambda>(re, im).
     case ofold (bitrev_step (fft_n fft)) [0 ..< nat (fft_n fft - 1)] (re, im, 0) of
       None \<Rightarrow> None
     | Some (re1, im1, j) \<Rightarrow>
         (case stages (fft_m fft) of
            None \<Rightarrow> None
          | Some ss \<Rightarrow> ofold (stage fft) ss (re1, im1)))"

definition FFT_inverse ::
  "FFT \<Rightarrow> jsnum list \<times> jsnum list \<Rightarrow> (jsnum list \<times> jsnum list) option"
where
  "FFT_inverse fft = (\<lambda>(re, im).
     let im1 = fold (\<lambda>i im. wr im (int i) (jneg (rd im (int i)))) [0 ..< nat (fft_n fft)] im
     in case FFT_forward fft (re, im1) of
          None \<Rightarrow> None
        | Some (re2, im2) \<Rightarrow>
            Some (fold (\<lambda>i (re, im).
                          (wr re (int i) (jdiv (rd re (int i)) (jint (fft_n fft))),
                           wr im (int i) (jdiv (rd im (int i)) (jint (- fft_n fft)))))
                    [0 ..< nat (fft_n fft)] (re2, im2)))"

section \<open>Window and mel utilities\<close>

definition hanningWindow :: "int \<Rightarrow> error + jsnum list" where
  "hanningWindow n =
     (case new_Float32Array (of_int n) of
        Inl e \<Rightarrow> Inl e
      | Inr w0 \<Rightarrow>
          Inr (fold (\<lambda>i w. wr w (int i)
                   (jmul (Fin 0.5)
                      (jsub (Fin 1) (jcos (jdiv (Fin (2 * pi * real i)) (jint (n - 1)))))))
                 [0 ..< nat n] w0))"

definition hzToMel :: "jsnum \<Rightarrow> jsnum" where
  "hzToMel hz = jmul (Fin 2595) (jlog 10 (jadd (Fin 1) (jdiv hz (Fin 700))))"

definition melToHz :: "jsnum \<Rightarrow> jsnum" where
  "melToHz mel = jmul (Fin 700) (jsub (jpow10 (jdiv mel (Fin 2595))) (Fin 1))"


section \<open>Outcomes of a call\<close>

text \<open>A call returns a value, throws, or never completes.\<close>

datatype 'a outcome = Returns 'a | Throws error | Hangs

fun obind :: "'a outcome \<Rightarrow> ('a \<Rightarrow> 'b outcome) \<Rightarrow> 'b outcome" where
  "obind (Returns v) f = f v"
| "obind (Throws e) f = Throws e"
| "obind Hangs f = Hangs"

fun of_sum :: "error + 'a \<Rightarrow> 'a outcome" where
  "of_sum (Inl e) = Throws e"
| "of_sum (Inr v) = Returns v"

fun of_option :: "'a option \<Rightarrow> 'a outcome" where
  "of_option None = Hangs"
| "of_option (Some v) = Returns v"



fun omap :: "('a \<Rightarrow> 'b outcome) \<Rightarrow> 'a list \<Rightarrow> 'b list outcome" where
  "omap f [] = Returns []"
| "omap f (x # xs) = obind (f x) (\<lambda>y. obind (omap f xs) (\<lambda>ys. Returns (y # ys)))"

fun ofoldl :: "('a \<Rightarrow> 's \<Rightarrow> 's outcome) \<Rightarrow> 'a list \<Rightarrow> 's \<Rightarrow> 's outcome" where
  "ofoldl f [] s = Returns s"
| "ofoldl f (x # xs) s = obind (f x s) (ofoldl f xs)"

section \<open>The spectrogram builder\<close>

record AudioBuffer =
  channelData :: "jsnum list"
  sampleRate :: jsnum

record SpectrogramResult =
  spectrogram :: "jsnum list list"
  frequencies :: "jsnum list"
  times :: "jsnum list"

text \<open>Window size, hop size and number of mel bins are integers.\<close>

definition numFrames_of :: "nat \<Rightarrow> int \<Rightarrow> int \<Rightarrow> jsnum" where
  "numFrames_of len windowSize hopSize =
     jfloor (jdiv (jint (int len - windowSize)) (jint hopSize))"

definition melPoints_of :: "jsnum \<Rightarrow> int \<Rightarrow> error + jsnum list" where
  "melPoints_of sr melBinsCount =
     (let minHz = Fin 0;
          maxHz = jdiv sr (Fin 2);
          minMel = hzToMel minHz;
          maxMel = hzToMel maxHz
      in case new_Float32Array (of_int (melBinsCount + 2)) of
           Inl e \<Rightarrow> Inl e
         | Inr mp0 \<Rightarrow>
             Inr (fold (\<lambda>i mp. wr mp (int i)
                      (melToHz (jadd minMel
                         (jdiv (jmul (jint (int i)) (jsub maxMel minMel))
                               (jint (melBinsCount + 1))))))
                    [0 ..< nat (melBinsCount + 2)] mp0))"

definition binPoints_of :: "jsnum list \<Rightarrow> int \<Rightarrow> jsnum \<Rightarrow> jsnum list" where
  "binPoints_of melPoints windowSize sr =
     map (\<lambda>hz. jfloor (jdiv (jmul (jint (windowSize + 1)) hz) sr)) melPoints"

text \<open>The values a counter takes in \<^verbatim>\<open>for (let j = lo; j < hi; j++)\<close> when both ends are
  numbers: \<open>None\<close> when the loop cannot end (a finite start below \<open>+\<infinity>\<close>, or a start at
  \<open>-\<infinity>\<close>, which \<open>j++\<close> leaves unchanged).\<close>

fun counter_values :: "jsnum \<Rightarrow> jsnum \<Rightarrow> real list option" where
  "counter_values (Fin a) (Fin b) = Some (map (\<lambda>t. a + real t) [0 ..< nat \<lceil>b - a\<rceil>])"
| "counter_values (Fin a) PInf = None"
| "counter_values NInf (Fin b) = None"
| "counter_values NInf PInf = None"
| "counter_values lo hi = Some []"

definition wr_key :: "jsnum list \<Rightarrow> real \<Rightarrow> jsnum \<Rightarrow> jsnum list" where
  "wr_key xs r v = (if of_int \<lfloor>r\<rfloor> = r then wr xs \<lfloor>r\<rfloor> v else xs)"

definition melFilter :: "jsnum list \<Rightarrow> int \<Rightarrow> nat \<Rightarrow> jsnum list outcome" where
  "melFilter binPoints windowSize i =
     obind (of_sum (new_Float32Array (of_int windowSize / 2 + 1))) (\<lambda>filter0.
     obind (of_option (counter_values (rd binPoints (int i)) (rd binPoints (int i + 1)))) (\<lambda>js1.
     let filter1 = fold (\<lambda>j filter. wr_key filter j
                      (jdiv (jsub (Fin j) (rd binPoints (int i)))
                            (jsub (rd binPoints (int i + 1)) (rd binPoints (int i)))))
                    js1 filter0
     in
     obind (of_option (counter_values (rd binPoints (int i + 1)) (rd binPoints (int i + 2)))) (\<lambda>js2.
     Returns (fold (\<lambda>j filter. wr_key filter j
                      (jdiv (jsub (rd binPoints (int i + 2)) (Fin j))
                            (jsub (rd binPoints (int i + 2)) (rd binPoints (int i + 1)))))
                js2 filter1))))"

text \<open>\<^verbatim>\<open>Array.from({ length: len }, ...)\<close> has no element for a length that is not
  positive.\<close>

definition filterbank_of :: "jsnum list \<Rightarrow> int \<Rightarrow> int \<Rightarrow> jsnum list list outcome" where
  "filterbank_of binPoints windowSize melBinsCount =
     omap (melFilter binPoints windowSize) [0 ..< nat melBinsCount]"

definition windowed :: "jsnum list \<Rightarrow> jsnum list \<Rightarrow> int \<Rightarrow> int \<Rightarrow> jsnum list \<Rightarrow> jsnum list" where
  "windowed data window windowSize start real0 =
     fold (\<lambda>i re. wr re (int i) (jmul (rd data (start + int i)) (rd window (int i))))
       [0 ..< nat windowSize] real0"

definition melFrame_of :: "jsnum list list \<Rightarrow> jsnum list \<Rightarrow> jsnum list" where
  "melFrame_of filterbank magnitudes =
     map (\<lambda>filter.
            let sum = fold (\<lambda>i sum. jadd sum (jmul (rd magnitudes (int i)) (rd filter (int i))))
                        [0 ..< length magnitudes] (Fin 0)
            in jmul (Fin 20) (jlog 10 (jmax (Fin (1 / 10 ^ 10)) sum)))
         filterbank"







section \<open>The masked reconstructor\<close>

text \<open>The fields \<^verbatim>\<open>x\<close> and \<^verbatim>\<open>width\<close> of an annotation are \<open>ann_x\<close> and \<open>ann_width\<close>.\<close>

record Annotation =
  ann_id :: string
  ann_x :: jsnum
  ann_width :: jsnum
  ann_label :: "string option"

text \<open>The loop over the annotations stops at the first interval that contains the frame's
  position.\<close>

fun isTimeMasked :: "Annotation list \<Rightarrow> jsnum \<Rightarrow> bool" where
  "isTimeMasked [] timePos = False"
| "isTimeMasked (ann # annotations) timePos =
     (if jge timePos (ann_x ann) \<and> jle timePos (jadd (ann_x ann) (ann_width ann)) then True
      else isTimeMasked annotations timePos)"

definition timePos_of :: "nat \<Rightarrow> jsnum \<Rightarrow> jsnum" where
  "timePos_of f numFrames = jdiv (jint (int f)) numFrames"

text \<open>\<^verbatim>\<open>fill(0)\<close> on both buffers of a masked frame.\<close>

definition applyMask ::
  "Annotation list \<Rightarrow> jsnum \<Rightarrow> jsnum list \<times> jsnum list \<Rightarrow> jsnum list \<times> jsnum list"
where
  "applyMask annotations timePos = (\<lambda>(frameReal, frameImag).
     if isTimeMasked annotations timePos
     then (map (\<lambda>v. Fin 0) frameReal, map (\<lambda>v. Fin 0) frameImag)
     else (frameReal, frameImag))"

definition overlapAdd ::
  "jsnum list \<Rightarrow> jsnum list \<Rightarrow> int \<Rightarrow> int \<Rightarrow> jsnum list \<times> jsnum list \<Rightarrow> jsnum list \<times> jsnum list"
where
  "overlapAdd frameReal window windowSize start =
     fold (\<lambda>i (reconstructed, norm_acc).
             (wr reconstructed (start + int i)
                (jadd (rd reconstructed (start + int i))
                      (jmul (rd frameReal (int i)) (rd window (int i)))),
              wr norm_acc (start + int i)
                (jadd (rd norm_acc (start + int i))
                      (jmul (rd window (int i)) (rd window (int i))))))
       [0 ..< nat windowSize]"

definition reconstructFrame ::
  "FFT \<Rightarrow> jsnum list \<Rightarrow> jsnum list \<Rightarrow> Annotation list \<Rightarrow> int \<Rightarrow> int \<Rightarrow> jsnum \<Rightarrow> nat
     \<Rightarrow> jsnum list \<times> jsnum list \<Rightarrow> (jsnum list \<times> jsnum list) outcome"
where
  "reconstructFrame fft window data annotations windowSize hopSize numFrames f acc =
     (let start = int f * hopSize in
      obind (of_sum (new_Float32Array (of_int windowSize))) (\<lambda>frameReal0.
      obind (of_sum (new_Float32Array (of_int windowSize))) (\<lambda>frameImag0.
      obind (of_option
               (FFT_forward fft (windowed data window windowSize start frameReal0, frameImag0)))
        (\<lambda>spectrum.
      obind (of_option
               (FFT_inverse fft (applyMask annotations (timePos_of f numFrames) spectrum)))
        (\<lambda>(frameReal, frameImag).
      Returns (overlapAdd frameReal window windowSize start acc))))))"

text \<open>The closing pass divides a sample by its accumulated window energy where that
  exceeds \<open>1e-10\<close>.\<close>

definition normalize :: "jsnum list \<Rightarrow> jsnum list \<Rightarrow> jsnum list" where
  "normalize reconstructed norm_acc =
     fold (\<lambda>i rec. if jgt (rd norm_acc (int i)) (Fin (1 / 10 ^ 10))
                    then wr rec (int i) (jdiv (rd rec (int i)) (rd norm_acc (int i)))
                    else rec)
       [0 ..< length reconstructed] reconstructed"

text \<open>The frame loop leaves the overlap-added samples and the accumulated window energy;
  the closing pass turns them into the samples that are copied into the new buffer.\<close>

definition accumulateFrames ::
  "AudioBuffer \<Rightarrow> Annotation list \<Rightarrow> int \<Rightarrow> int \<Rightarrow> (jsnum list \<times> jsnum list) outcome"
where
  "accumulateFrames originalBuffer annotations windowSize hopSize =
     (let data = channelData originalBuffer in
      obind (of_sum (FFT_new windowSize)) (\<lambda>fft.
      obind (of_sum (hanningWindow windowSize)) (\<lambda>window.
      let numFrames = numFrames_of (length data) windowSize hopSize in
      obind (of_sum (new_Float32Array (real (length data)))) (\<lambda>reconstructed0.
      obind (of_sum (new_Float32Array (real (length data)))) (\<lambda>norm0.
      obind (of_option (iterations numFrames)) (\<lambda>count.
      ofoldl (reconstructFrame fft window data annotations windowSize hopSize numFrames)
        [0 ..< count] (reconstructed0, norm0)))))))"

definition reconstructSamples ::
  "AudioBuffer \<Rightarrow> Annotation list \<Rightarrow> int \<Rightarrow> int \<Rightarrow> jsnum list outcome"
where
  "reconstructSamples originalBuffer annotations windowSize hopSize =
     obind (accumulateFrames originalBuffer annotations windowSize hopSize)
       (\<lambda>(reconstructed, norm_acc). Returns (normalize reconstructed norm_acc))"

text \<open>Audio buffers are objects of the audio context: the store holds them by address.
  \<^verbatim>\<open>createBuffer\<close> adds a silent buffer at a fresh address and \<^verbatim>\<open>copyToChannel\<close>
  overwrites the leading samples of a buffer's channel. An address that holds no buffer
  stands for a null reference.\<close>

type_synonym store = "AudioBuffer list"

definition lookup :: "store \<Rightarrow> nat \<Rightarrow> AudioBuffer option" where
  "lookup st a = (if a < length st then Some (st ! a) else None)"

definition createBuffer :: "store \<Rightarrow> nat \<Rightarrow> jsnum \<Rightarrow> store \<times> nat" where
  "createBuffer st len sr =
     (st @ [\<lparr> channelData = replicate len (Fin 0), sampleRate = sr \<rparr>], length st)"

definition copyToChannel :: "store \<Rightarrow> nat \<Rightarrow> jsnum list \<Rightarrow> store" where
  "copyToChannel st a source =
     (case lookup st a of
        None \<Rightarrow> st
      | Some buf \<Rightarrow>
          st[a := buf\<lparr> channelData :=
                        take (length (channelData buf)) source
                        @ drop (length source) (channelData buf) \<rparr>])"

definition applyMaskAndReconstruct ::
  "store \<Rightarrow> nat \<Rightarrow> Annotation list \<Rightarrow> int \<Rightarrow> int \<Rightarrow> (store \<times> nat) outcome"
where
  "applyMaskAndReconstruct ctx originalBuffer annotations windowSize hopSize =
     (case lookup ctx originalBuffer of
        None \<Rightarrow> Throws TypeError
      | Some buf \<Rightarrow>
          obind (reconstructSamples buf annotations windowSize hopSize) (\<lambda>reconstructed.
          let (ctx1, newBuffer) = createBuffer ctx (length reconstructed) (sampleRate buf)
          in Returns (copyToChannel ctx1 newBuffer reconstructed, newBuffer)))"

section \<open>Auxiliary notions for the proofs\<close>


text \<open>Two pairs of buffers with the same lengths.\<close>

definition same_lengths :: "jsnum list \<times> jsnum list \<Rightarrow> jsnum list \<times> jsnum list \<Rightarrow> bool" where
  "same_lengths a b = (length (fst b) = length (fst a) \<and> length (snd b) = length (snd a))"

text \<open>The boundary frequencies and boundary bins of the filterbank for a finite positive sample
  rate \<open>r\<close>, and the weight of a triangular filter with boundary bins \<open>l\<close>, \<open>c\<close>, \<open>r\<close>
  at bin \<open>x\<close>.\<close>

definition melPoint :: "real \<Rightarrow> int \<Rightarrow> nat \<Rightarrow> real" where
  "melPoint r m i =
     700 * (10 powr (real i * (2595 * log 10 (1 + r / 2 / 700)) / real_of_int (m + 1) / 2595) - 1)"

definition binPoint :: "real \<Rightarrow> int \<Rightarrow> int \<Rightarrow> nat \<Rightarrow> int" where
  "binPoint r n m i = \<lfloor>real_of_int (n + 1) * melPoint r m i / r\<rfloor>"

definition triangle :: "int \<Rightarrow> int \<Rightarrow> int \<Rightarrow> int \<Rightarrow> jsnum" where
  "triangle l c r x =
     (if l \<le> x \<and> x < c then Fin (real_of_int (x - l) / real_of_int (c - l))
      else if c \<le> x \<and> x < r then Fin (real_of_int (r - x) / real_of_int (r - c))
      else Fin 0)"



text \<open>The plan the constructor builds for four points.\<close>

definition fft4_plan :: FFT where
  "fft4_plan = \<lparr> fft_n = 4, fft_m = Fin 2, fft_cos = [Fin 1, Fin 0], fft_sin = [Fin 0, Fin 1] \<rparr>"



text \<open>The boundary bins and the filterbank as the spectrogram builder computes them from the
  sample rate, the window size and the number of mel bins, and the weight of filter \<open>i\<close> at
  bin \<open>x\<close>.\<close>

definition boundaryBins :: "jsnum \<Rightarrow> int \<Rightarrow> int \<Rightarrow> jsnum list" where
  "boundaryBins sr n m =
     (case melPoints_of sr m of Inl e \<Rightarrow> [] | Inr melPoints \<Rightarrow> binPoints_of melPoints n sr)"

definition filterbank_for :: "jsnum \<Rightarrow> int \<Rightarrow> int \<Rightarrow> jsnum list list outcome" where
  "filterbank_for sr n m =
     obind (of_sum (melPoints_of sr m)) (\<lambda>melPoints.
       filterbank_of (binPoints_of melPoints n sr) n m)"

definition filterWeight :: "jsnum \<Rightarrow> int \<Rightarrow> int \<Rightarrow> nat \<Rightarrow> nat \<Rightarrow> jsnum outcome" where
  "filterWeight sr n m i x = obind (filterbank_for sr n m) (\<lambda>fb. Returns (fb ! i ! x))"

section \<open>Arrays, loops and 32-bit operators\<close>


lemma length_wr [simp]: "length (wr xs i v) = length xs"
  by (simp add: wr_def)

lemma length_wr_key [simp]: "length (wr_key xs r v) = length xs"
  by (simp add: wr_key_def)

lemma length_fold_keep:
  assumes "\<And>x s. length (f x s) = length s"
  shows "length (fold f xs s) = length s"
  using assms by (induction xs arbitrary: s) simp_all




lemma to_int32_idem [simp]: "to_int32 (to_int32 x) = to_int32 x"
  unfolding to_int32_def by (simp add: mod_diff_left_eq algebra_simps) 

lemma to_int32_range: "- (2 ^ 31) \<le> to_int32 x \<and> to_int32 x < 2 ^ 31"
  unfolding to_int32_def by simp 






lemma same_lengths_refl [simp]: "same_lengths a a"
  by (simp add: same_lengths_def)

lemma same_lengths_trans: "same_lengths a b \<Longrightarrow> same_lengths b c \<Longrightarrow> same_lengths a c"
  by (simp add: same_lengths_def)











lemma trunc_of_int [simp]: "trunc (of_int k) = k"
  by (simp add: trunc_def)

lemma trunc_half: "0 \<le> n \<Longrightarrow> trunc (real_of_int n / 2) = n div 2"
  by (simp add: trunc_def floor_divide_of_int_eq [of n 2, simplified])

lemma trunc_half_neg: "trunc (real_of_int n / 2) < 0 \<longleftrightarrow> n \<le> - 2"
proof (cases "0 \<le> n")
  case True
  then show ?thesis by (simp add: trunc_def)
next
  case False
  then have "trunc (real_of_int n / 2) = \<lceil>real_of_int n / 2\<rceil>"
    by (simp add: trunc_def)
  also have "\<dots> < 0 \<longleftrightarrow> real_of_int n / 2 \<le> -1"
    by (simp add: ceiling_less_iff)
  also have "\<dots> \<longleftrightarrow> real_of_int n \<le> real_of_int (- 2)" by simp
  also have "\<dots> \<longleftrightarrow> n \<le> - 2" by (simp only: of_int_le_iff)
  finally show ?thesis .
qed

lemma new_Float32Array_int:
  "new_Float32Array (of_int k) = (if k < 0 then Inl RangeError else Inr (replicate (nat k) (Fin 0)))"
  by (simp add: new_Float32Array_def)

lemma new_Float32Array_nat [simp]:
  "new_Float32Array (real k) = Inr (replicate k (Fin 0))"
  using new_Float32Array_int [of "int k"] by simp

lemma FFT_new_throws: "(\<exists>e. FFT_new n = Inl e) \<longleftrightarrow> n \<le> - 2"
  using trunc_half_neg [of n]
  by (auto simp: FFT_new_def new_Float32Array_def split: sum.splits if_splits)

lemma FFT_new_ok:
  assumes "- 2 < n"
  shows "\<exists>fft. FFT_new n = Inr fft \<and> fft_n fft = n \<and> fft_m fft \<noteq> PInf"
proof -
  from assms have "\<not> trunc (real_of_int n / 2) < 0" by (simp add: trunc_half_neg)
  moreover have "jlog 2 (jint n) \<noteq> PInf" by simp
  ultimately show ?thesis by (simp add: FFT_new_def new_Float32Array_def)
qed

lemma hanningWindow_throws: "(\<exists>e. hanningWindow n = Inl e) \<longleftrightarrow> n < 0"
  by (auto simp: hanningWindow_def new_Float32Array_int split: sum.splits if_splits)

lemma hanningWindow_ok:
  assumes "0 \<le> n"
  shows "\<exists>w. hanningWindow n = Inr w \<and> length w = nat n"
proof -
  have "length (fold (\<lambda>i w. wr w (int i)
                   (jmul (Fin 0.5)
                      (jsub (Fin 1) (jcos (jdiv (Fin (2 * pi * real i)) (jint (n - 1)))))))
                 [0 ..< nat n] (replicate (nat n) (Fin 0))) = nat n"
    by (subst length_fold_keep) simp_all
  with assms show ?thesis
    by (simp add: hanningWindow_def new_Float32Array_int)
qed



section \<open>Masking a frame\<close>





section \<open>Outcomes and the frame loop of the reconstructor\<close>

lemma obind_Returns_iff: "obind a f = Returns r \<longleftrightarrow> (\<exists>v. a = Returns v \<and> f v = Returns r)"
  by (cases a) simp_all

lemma obind_Throws_iff:
  "obind a f = Throws e \<longleftrightarrow> a = Throws e \<or> (\<exists>v. a = Returns v \<and> f v = Throws e)"
  by (cases a) auto

lemma of_sum_Returns_iff [simp]: "of_sum x = Returns v \<longleftrightarrow> x = Inr v"
  by (cases x) simp_all

lemma of_sum_Throws_iff [simp]: "of_sum x = Throws e \<longleftrightarrow> x = Inl e"
  by (cases x) simp_all

lemma of_sum_not_Hangs [simp]: "of_sum x \<noteq> Hangs"
  by (cases x) simp_all

lemma of_option_Returns_iff [simp]: "of_option x = Returns v \<longleftrightarrow> x = Some v"
  by (cases x) simp_all

lemma of_option_not_Throws [simp]: "of_option x \<noteq> Throws e"
  by (cases x) simp_all


lemma ofoldl_Returns_inv:
  assumes "ofoldl f xs s = Returns s'" and "P s"
    and "\<And>x a b. x \<in> set xs \<Longrightarrow> P a \<Longrightarrow> f x a = Returns b \<Longrightarrow> P b"
  shows "P s'"
  using assms
proof (induction xs arbitrary: s)
  case Nil
  then show ?case by simp
next
  case (Cons x xs)
  from Cons.prems(1) obtain s1 where s1: "f x s = Returns s1" "ofoldl f xs s1 = Returns s'"
    by (auto simp: obind_Returns_iff)
  have "P s1" using Cons.prems(3) [of x s s1] Cons.prems(2) s1(1) by simp
  with s1(2) show ?case
    by (rule Cons.IH) (use Cons.prems(3) in auto)
qed


lemma ofoldl_no_throw:
  assumes "\<And>x a e. x \<in> set xs \<Longrightarrow> f x a \<noteq> Throws e"
  shows "ofoldl f xs s \<noteq> Throws e"
  using assms
proof (induction xs arbitrary: s)
  case Nil
  show ?case by simp
next
  case (Cons x xs)
  show ?case
  proof (cases "f x s")
    case (Returns v)
    then show ?thesis using Cons.IH [of v] Cons.prems by simp
  next
    case (Throws e')
    with Cons.prems [of x s e'] show ?thesis by simp
  next
    case Hangs
    then show ?thesis by simp
  qed
qed

lemma fold_same_lengths:
  assumes "\<And>x a. same_lengths a (f x a)"
  shows "same_lengths s (fold f xs s)"
proof (induction xs arbitrary: s)
  case Nil
  show ?case by simp
next
  case (Cons x xs)
  have "same_lengths s (f x s)" by (rule assms)
  from this Cons.IH have "same_lengths s (fold f xs (f x s))" by (rule same_lengths_trans)
  then show ?case by simp
qed

lemma overlapAdd_lengths: "same_lengths acc (overlapAdd frameReal window windowSize start acc)"
  unfolding overlapAdd_def
  by (rule fold_same_lengths) (simp add: same_lengths_def split: prod.splits)

lemma iterations_jint [simp]: "iterations (jint k) = Some (nat k)"
  by simp

lemma reconstructFrame_lengths:
  assumes "reconstructFrame fft window data annotations windowSize hopSize numFrames f acc
             = Returns acc'"
  shows "same_lengths acc acc'"
proof -
  from assms obtain frameReal where
    "acc' = overlapAdd frameReal window windowSize (int f * hopSize) acc"
    by (auto simp: reconstructFrame_def Let_def obind_Returns_iff split: prod.splits)
  then show ?thesis by (simp add: overlapAdd_lengths)
qed

lemma applyMask_lengths: "same_lengths ri (applyMask annotations t ri)"
  by (cases ri) (simp add: applyMask_def same_lengths_def)


lemma normalize_prefix:
  fixes reconstructed norm_acc
  defines "step \<equiv> (\<lambda>i rec. if jgt (rd norm_acc (int i)) (Fin (1 / 10 ^ 10))
                    then wr rec (int i) (jdiv (rd rec (int i)) (rd norm_acc (int i)))
                    else rec)"
  assumes "k \<le> length reconstructed"
  shows "length (fold step [0 ..< k] reconstructed) = length reconstructed
       \<and> (\<forall>i < length reconstructed.
            fold step [0 ..< k] reconstructed ! i =
              (if i < k \<and> jgt (rd norm_acc (int i)) (Fin (1 / 10 ^ 10))
               then jdiv (reconstructed ! i) (rd norm_acc (int i))
               else reconstructed ! i))"
  using assms(2)
proof (induction k)
  case 0
  show ?case by simp
next
  case (Suc k)
  let ?r = "fold step [0 ..< k] reconstructed"
  from Suc have ih: "length ?r = length reconstructed"
    "\<And>i. i < length reconstructed \<Longrightarrow> ?r ! i =
              (if i < k \<and> jgt (rd norm_acc (int i)) (Fin (1 / 10 ^ 10))
               then jdiv (reconstructed ! i) (rd norm_acc (int i))
               else reconstructed ! i)"
    by simp_all
  have k: "k < length reconstructed" using Suc.prems by simp
  have fold_eq: "fold step [0 ..< Suc k] reconstructed = step k ?r" by simp
  have rk: "rd ?r (int k) = reconstructed ! k"
    using ih k by (simp add: rd_def)
  show ?case
    unfolding fold_eq
    using ih k rk
    by (auto simp: step_def wr_def nth_list_update less_Suc_eq)
qed



lemma reconstructFrame_no_throw:
  assumes "0 \<le> windowSize"
  shows "reconstructFrame fft window data annotations windowSize hopSize numFrames f acc \<noteq> Throws e"
proof -
  have alloc: "new_Float32Array (real_of_int windowSize) = Inr (replicate (nat windowSize) (Fin 0))"
    using new_Float32Array_int [of windowSize] assms by simp
  show ?thesis
    by (auto simp: reconstructFrame_def Let_def alloc obind_Throws_iff split: prod.splits)
qed

lemma accumulateFrames_unfold:
  assumes "0 \<le> windowSize"
  shows "\<exists>fft window. FFT_new windowSize = Inr fft \<and> fft_n fft = windowSize \<and> fft_m fft \<noteq> PInf
           \<and> hanningWindow windowSize = Inr window \<and> length window = nat windowSize
           \<and> accumulateFrames buf annotations windowSize hopSize =
               obind (of_option (iterations (numFrames_of (length (channelData buf)) windowSize hopSize)))
                 (\<lambda>count. ofoldl (reconstructFrame fft window (channelData buf) annotations
                                     windowSize hopSize
                                     (numFrames_of (length (channelData buf)) windowSize hopSize))
                            [0 ..< count]
                            (replicate (length (channelData buf)) (Fin 0),
                             replicate (length (channelData buf)) (Fin 0)))"
proof -
  from assms have "- 2 < windowSize" by simp
  from FFT_new_ok [OF this] obtain fft where
    fft: "FFT_new windowSize = Inr fft" "fft_n fft = windowSize" "fft_m fft \<noteq> PInf"
    by blast
  from hanningWindow_ok [OF assms] obtain window where
    w: "hanningWindow windowSize = Inr window" "length window = nat windowSize"
    by blast
  show ?thesis
    using fft w by (simp add: accumulateFrames_def Let_def)
qed

lemma accumulateFrames_throws:
  "(\<exists>e. accumulateFrames buf annotations windowSize hopSize = Throws e) \<longleftrightarrow> windowSize < 0"
proof (cases "0 \<le> windowSize")
  case True
  from accumulateFrames_unfold [OF True, of buf annotations hopSize] obtain fft window where
    eq: "accumulateFrames buf annotations windowSize hopSize =
               obind (of_option (iterations (numFrames_of (length (channelData buf)) windowSize hopSize)))
                 (\<lambda>count. ofoldl (reconstructFrame fft window (channelData buf) annotations
                                     windowSize hopSize
                                     (numFrames_of (length (channelData buf)) windowSize hopSize))
                            [0 ..< count]
                            (replicate (length (channelData buf)) (Fin 0),
                             replicate (length (channelData buf)) (Fin 0)))"
    by blast
  have "accumulateFrames buf annotations windowSize hopSize \<noteq> Throws e" for e
  proof
    assume "accumulateFrames buf annotations windowSize hopSize = Throws e"
    then obtain count where
      "ofoldl (reconstructFrame fft window (channelData buf) annotations windowSize hopSize
                 (numFrames_of (length (channelData buf)) windowSize hopSize))
         [0 ..< count]
         (replicate (length (channelData buf)) (Fin 0),
          replicate (length (channelData buf)) (Fin 0)) = Throws e"
      unfolding eq by (auto simp: obind_Throws_iff)
    moreover have
      "ofoldl (reconstructFrame fft window (channelData buf) annotations windowSize hopSize
                 (numFrames_of (length (channelData buf)) windowSize hopSize))
         [0 ..< count]
         (replicate (length (channelData buf)) (Fin 0),
          replicate (length (channelData buf)) (Fin 0)) \<noteq> Throws e"
      by (rule ofoldl_no_throw) (rule reconstructFrame_no_throw [OF True])
    ultimately show False by contradiction
  qed
  with True show ?thesis by auto
next
  case False
  show ?thesis
  proof (cases "windowSize \<le> - 2")
    case True
    then obtain e where "FFT_new windowSize = Inl e" using FFT_new_throws by blast
    with False show ?thesis by (auto simp: accumulateFrames_def Let_def)
  next
    case n: False
    with False have "- 2 < windowSize" "windowSize < 0" by simp_all
    from FFT_new_ok [OF this(1)] obtain fft where "FFT_new windowSize = Inr fft" by blast
    moreover obtain e where "hanningWindow windowSize = Inl e"
      using hanningWindow_throws \<open>windowSize < 0\<close> by blast
    ultimately show ?thesis using False by (auto simp: accumulateFrames_def Let_def)
  qed
qed

lemma accumulateFrames_lengths:
  assumes "accumulateFrames buf annotations windowSize hopSize = Returns (reconstructed, norm_acc)"
  shows "length reconstructed = length (channelData buf) \<and> length norm_acc = length (channelData buf)"
proof -
  let ?L = "length (channelData buf)"
  let ?z = "(replicate ?L (Fin 0), replicate ?L (Fin 0))"
  have "\<not> (\<exists>e. accumulateFrames buf annotations windowSize hopSize = Throws e)"
    using assms by simp
  then have "\<not> windowSize < 0"
    using accumulateFrames_throws [of buf annotations windowSize hopSize] by blast
  then have "0 \<le> windowSize" by simp
  from accumulateFrames_unfold [OF this, of buf annotations hopSize]
  obtain fft window where
    eq: "accumulateFrames buf annotations windowSize hopSize =
               obind (of_option (iterations (numFrames_of ?L windowSize hopSize)))
                 (\<lambda>count. ofoldl (reconstructFrame fft window (channelData buf) annotations
                                     windowSize hopSize (numFrames_of ?L windowSize hopSize))
                            [0 ..< count] ?z)"
    by blast
  from assms [unfolded eq] obtain count where
    fold: "ofoldl (reconstructFrame fft window (channelData buf) annotations windowSize hopSize
                     (numFrames_of ?L windowSize hopSize))
             [0 ..< count] ?z = Returns (reconstructed, norm_acc)"
    by (auto simp: obind_Returns_iff)
  have "same_lengths ?z (reconstructed, norm_acc)"
  proof (rule ofoldl_Returns_inv [OF fold, where P = "same_lengths ?z"])
    show "same_lengths ?z ?z" by simp
  next
    fix x a b
    assume a: "same_lengths ?z a"
      and b: "reconstructFrame fft window (channelData buf) annotations windowSize hopSize
                (numFrames_of ?L windowSize hopSize) x a = Returns b"
    from a reconstructFrame_lengths [OF b] show "same_lengths ?z b"
      by (rule same_lengths_trans)
  qed
  then show ?thesis by (simp add: same_lengths_def)
qed


section \<open>The closing pass of the reconstructor\<close>

lemma normalize_spec:
  "length (normalize reconstructed norm_acc) = length reconstructed
   \<and> (\<forall>i < length reconstructed.
         normalize reconstructed norm_acc ! i =
           (if jgt (rd norm_acc (int i)) (Fin (1 / 10 ^ 10))
            then jdiv (reconstructed ! i) (rd norm_acc (int i))
            else reconstructed ! i))"
  using normalize_prefix [of "length reconstructed" reconstructed norm_acc]
  by (simp add: normalize_def)

lemma jgt_eps_nonzero: "jgt x (Fin (1 / 10 ^ 10)) \<Longrightarrow> x \<noteq> Fin 0"
  by (auto simp: jgt_def)

lemma jdiv_guarded_finite:
  "jgt y (Fin (1 / 10 ^ 10)) \<Longrightarrow> is_finite x \<Longrightarrow> is_finite (jdiv x y)"
  by (cases x; cases y) (auto simp: jgt_def is_finite_def)

lemma copyToChannel_fresh:
  "copyToChannel (ctx @ [\<lparr> channelData = replicate (length out) (Fin 0), sampleRate = sr \<rparr>])
     (length ctx) out = ctx @ [\<lparr> channelData = out, sampleRate = sr \<rparr>]"
  by (simp add: copyToChannel_def lookup_def)

lemma applyMaskAndReconstruct_eq:
  assumes "lookup ctx originalBuffer = Some buf"
  shows "applyMaskAndReconstruct ctx originalBuffer annotations windowSize hopSize =
           obind (reconstructSamples buf annotations windowSize hopSize)
             (\<lambda>out. Returns (ctx @ [\<lparr> channelData = out, sampleRate = sampleRate buf \<rparr>],
                              length ctx))"
  using assms
  by (simp add: applyMaskAndReconstruct_def createBuffer_def copyToChannel_fresh)

lemma reconstructSamples_Returns:
  assumes "reconstructSamples buf annotations windowSize hopSize = Returns out"
  shows "\<exists>reconstructed norm_acc.
           accumulateFrames buf annotations windowSize hopSize = Returns (reconstructed, norm_acc)
           \<and> out = normalize reconstructed norm_acc
           \<and> length reconstructed = length (channelData buf)
           \<and> length norm_acc = length (channelData buf)"
proof -
  from assms obtain reconstructed norm_acc where
    a: "accumulateFrames buf annotations windowSize hopSize = Returns (reconstructed, norm_acc)"
       "out = normalize reconstructed norm_acc"
    by (auto simp: reconstructSamples_def obind_Returns_iff)
  with accumulateFrames_lengths [OF a(1)] show ?thesis by blast
qed

text \<open>
  Claim C7. Whenever \<^verbatim>\<open>applyMaskAndReconstruct\<close> returns, every sample of the new buffer is
  the overlap-added value divided by the accumulated window energy at that index if that
  energy exceeds \<open>1e-10\<close>, and the overlap-added value itself otherwise. A divisor is
  therefore never zero, and a finite accumulated value stays finite. (Overflow of the
  quotient beyond the binary32 range is outside the number model.)
\<close>

theorem normalization_divides_only_above_epsilon:
  assumes "lookup ctx originalBuffer = Some buf"
    and "applyMaskAndReconstruct ctx originalBuffer annotations windowSize hopSize
           = Returns (ctx', newBuffer)"
  shows "\<exists>reconstructed norm_acc out.
           accumulateFrames buf annotations windowSize hopSize = Returns (reconstructed, norm_acc)
           \<and> lookup ctx' newBuffer = Some out
           \<and> length (channelData out) = length reconstructed
           \<and> length norm_acc = length reconstructed
           \<and> (\<forall>i < length reconstructed.
                 channelData out ! i =
                   (if jgt (norm_acc ! i) (Fin (1 / 10 ^ 10))
                    then jdiv (reconstructed ! i) (norm_acc ! i)
                    else reconstructed ! i)
                 \<and> (jgt (norm_acc ! i) (Fin (1 / 10 ^ 10)) \<longrightarrow> norm_acc ! i \<noteq> Fin 0)
                 \<and> (is_finite (reconstructed ! i) \<longrightarrow> is_finite (channelData out ! i)))"
proof -
  from assms obtain samples where
    s: "reconstructSamples buf annotations windowSize hopSize = Returns samples"
       "ctx' = ctx @ [\<lparr> channelData = samples, sampleRate = sampleRate buf \<rparr>]"
       "newBuffer = length ctx"
    by (auto simp: applyMaskAndReconstruct_eq obind_Returns_iff)
  from reconstructSamples_Returns [OF s(1)] obtain reconstructed norm_acc where
    a: "accumulateFrames buf annotations windowSize hopSize = Returns (reconstructed, norm_acc)"
       "samples = normalize reconstructed norm_acc"
       "length reconstructed = length (channelData buf)"
       "length norm_acc = length (channelData buf)"
    by blast
  let ?out = "\<lparr> channelData = samples, sampleRate = sampleRate buf \<rparr>"
  have l: "lookup ctx' newBuffer = Some ?out"
    by (simp add: s lookup_def)
  have n: "length samples = length reconstructed"
    "\<And>i. i < length reconstructed \<Longrightarrow> samples ! i =
           (if jgt (norm_acc ! i) (Fin (1 / 10 ^ 10))
            then jdiv (reconstructed ! i) (norm_acc ! i)
            else reconstructed ! i)"
    using normalize_spec [of reconstructed norm_acc] a(3,4)
    by (simp_all add: a(2) rd_def)
  have "\<forall>i < length reconstructed.
          channelData ?out ! i =
            (if jgt (norm_acc ! i) (Fin (1 / 10 ^ 10))
             then jdiv (reconstructed ! i) (norm_acc ! i)
             else reconstructed ! i)
          \<and> (jgt (norm_acc ! i) (Fin (1 / 10 ^ 10)) \<longrightarrow> norm_acc ! i \<noteq> Fin 0)
          \<and> (is_finite (reconstructed ! i) \<longrightarrow> is_finite (channelData ?out ! i))"
    using n(2) by (auto simp: jgt_eps_nonzero jdiv_guarded_finite)
  with a(1) l n(1) a(3,4) show ?thesis
    by - (rule exI [of _ reconstructed], rule exI [of _ norm_acc], rule exI [of _ ?out],
          simp add: jdiv_guarded_finite)
qed






section \<open>The reconstructed buffer\<close>




section \<open>The mel filterbank and the frame loop of the spectrogram builder\<close>

lemma fold_wr_tabulate:
  "k \<le> length xs \<Longrightarrow>
     fold (\<lambda>i a. wr a (int i) (g i)) [0 ..< k] xs = map g [0 ..< k] @ drop k xs"
proof (induction k)
  case 0
  show ?case by simp
next
  case (Suc k)
  then have k: "k < length xs" by simp
  have "fold (\<lambda>i a. wr a (int i) (g i)) [0 ..< Suc k] xs
          = wr (map g [0 ..< k] @ drop k xs) (int k) (g k)"
    using Suc by simp
  also have "\<dots> = (map g [0 ..< k] @ drop k xs)[k := g k]"
    using k by (simp add: wr_def)
  also have "\<dots> = map g [0 ..< k] @ (drop k xs)[0 := g k]"
    by (simp add: list_update_append)
  also have "drop k xs = xs ! k # drop (Suc k) xs"
    using k by (simp add: Cons_nth_drop_Suc)
  finally show ?case by simp
qed

lemma fold_wr_tabulate_replicate:
  "fold (\<lambda>i a. wr a (int i) (g i)) [0 ..< k] (replicate k z) = map g [0 ..< k]"
  using fold_wr_tabulate [of k "replicate k z" g] by simp

lemma hzToMel_zero: "hzToMel (Fin 0) = Fin 0"
  by (simp add: hzToMel_def)

lemma hzToMel_pos: "0 < r \<Longrightarrow> hzToMel (jdiv (Fin r) (Fin 2)) = Fin (2595 * log 10 (1 + r / 2 / 700))"
proof -
  assume "0 < r"
  then have "0 < 1 + r / 2 / 700" by (simp add: add_pos_pos)
  then show ?thesis by (simp add: hzToMel_def)
qed



lemma melPoints_of_finite:
  assumes "0 < r" "0 \<le> m"
  shows "melPoints_of (Fin r) m = Inr (map (\<lambda>i. Fin (melPoint r m i)) [0 ..< nat (m + 2)])"
proof -
  have alloc: "new_Float32Array (real_of_int (m + 2)) = Inr (replicate (nat (m + 2)) (Fin 0))"
    using new_Float32Array_int [of "m + 2"] assms(2) by simp
  have nz: "real_of_int m + 1 \<noteq> 0" using assms(2) by linarith
  have pt: "melToHz (jadd (Fin 0)
              (jdiv (jmul (jint (int i)) (jsub (Fin (2595 * log 10 (1 + r / 2 / 700))) (Fin 0)))
                    (jint (m + 1)))) = Fin (melPoint r m i)" for i
    using nz by (simp add: melToHz_def melPoint_def jsub_def)
  show ?thesis
    unfolding melPoints_of_def Let_def hzToMel_zero hzToMel_pos [OF assms(1)] alloc pt
    by (simp add: fold_wr_tabulate_replicate)
qed

lemma binPoints_of_finite:
  assumes "0 < r"
  shows "binPoints_of (map (\<lambda>i. Fin (melPoint r m i)) is) n (Fin r)
           = map (\<lambda>i. jint (binPoint r n m i)) is"
  using assms by (simp add: binPoints_of_def binPoint_def)


lemma counter_values_int:
  "counter_values (jint l) (jint c) = Some (map (\<lambda>t. real_of_int l + real t) [0 ..< nat (c - l)])"
proof -
  have "\<lceil>real_of_int c - real_of_int l\<rceil> = c - l"
    by (metis ceiling_of_int of_int_diff)
  then show ?thesis by simp
qed

lemma wr_key_int [simp]: "wr_key xs (real_of_int j) v = wr xs j v"
  by (simp add: wr_key_def)

lemma wr_key_int_nat: "wr_key xs (real_of_int l + real k) v = wr xs (l + int k) v"
  using wr_key_int [of xs "l + int k" v] by simp

lemma nth_wr: "x < length f \<Longrightarrow> wr f j v ! x = (if j = int x then v else f ! x)"
  by (auto simp: wr_def nth_list_update)

lemma fold_ramp:
  fixes g :: "int \<Rightarrow> jsnum"
  shows "length (fold (\<lambda>j f. wr_key f j (h j)) (map (\<lambda>t. real_of_int l + real t) [0 ..< k]) f0)
           = length f0
       \<and> (\<forall>x < length f0.
             fold (\<lambda>j f. wr_key f j (h j)) (map (\<lambda>t. real_of_int l + real t) [0 ..< k]) f0 ! x
               = (if l \<le> int x \<and> int x < l + int k then h (real x) else f0 ! x))"
proof (induction k)
  case 0
  show ?case by auto
next
  case (Suc k)
  let ?f = "fold (\<lambda>j f. wr_key f j (h j)) (map (\<lambda>t. real_of_int l + real t) [0 ..< k]) f0"
  have step: "fold (\<lambda>j f. wr_key f j (h j)) (map (\<lambda>t. real_of_int l + real t) [0 ..< Suc k]) f0
              = wr ?f (l + int k) (h (real_of_int l + real k))"
    by (simp add: wr_key_int_nat)
  from Suc have len: "length ?f = length f0"
    and val: "\<And>x. x < length f0 \<Longrightarrow>
                ?f ! x = (if l \<le> int x \<and> int x < l + int k then h (real x) else f0 ! x)"
    by simp_all
  show ?case
    unfolding step
  proof (intro conjI allI impI)
    show "length (wr ?f (l + int k) (h (real_of_int l + real k))) = length f0"
      by (simp add: len)
  next
    fix x
    assume x: "x < length f0"
    show "wr ?f (l + int k) (h (real_of_int l + real k)) ! x
            = (if l \<le> int x \<and> int x < l + int (Suc k) then h (real x) else f0 ! x)"
    proof (cases "int x = l + int k")
      case True
      then have n: "nat (l + int k) = x" by simp
      from True have e: "real_of_int l + real k = real x"
        by (metis of_int_add of_int_of_nat_eq)
      have "wr ?f (l + int k) (h (real x)) ! x = h (real x)"
        using x True by (simp add: nth_wr len)
      with True show ?thesis unfolding e by simp
    next
      case False
      with x have "wr ?f (l + int k) (h (real_of_int l + real k)) ! x = ?f ! x"
        by (simp add: nth_wr len)
      with False show ?thesis
        using val [OF x] by auto
    qed
  qed
qed

lemma trunc_half_plus_one: "0 \<le> n \<Longrightarrow> trunc (real_of_int n / 2 + 1) = n div 2 + 1"
proof -
  assume "0 \<le> n"
  then have "0 \<le> real_of_int n / 2 + 1" by simp
  moreover have "\<lfloor>real_of_int n / 2 + 1\<rfloor> = n div 2 + 1"
    using floor_divide_of_int_eq [of n 2] by simp
  ultimately show ?thesis by (simp add: trunc_def)
qed

lemma melFilter_finite:
  assumes "0 \<le> n" "i + 2 < length bs"
  shows "\<exists>filter. melFilter (map jint bs) n i = Returns filter
           \<and> length filter = nat (n div 2 + 1)
           \<and> (\<forall>x < nat (n div 2 + 1).
                 filter ! x = triangle (bs ! i) (bs ! (i + 1)) (bs ! (i + 2)) (int x))"
proof -
  let ?l = "bs ! i" and ?c = "bs ! (i + 1)" and ?r = "bs ! (i + 2)"
  let ?len = "nat (n div 2 + 1)"
  let ?f0 = "replicate ?len (Fin 0)"
  have rds: "rd (map jint bs) (int i) = jint ?l"
    "rd (map jint bs) (int i + 1) = jint ?c"
    "rd (map jint bs) (int i + 2) = jint ?r"
    using assms(2) by (simp_all add: rd_def nat_add_distrib)
  have alloc: "new_Float32Array (real_of_int n / 2 + 1) = Inr ?f0"
    using assms(1) by (simp add: new_Float32Array_def trunc_half_plus_one)
  let ?h1 = "\<lambda>j. jdiv (jsub (Fin j) (jint ?l)) (jsub (jint ?c) (jint ?l))"
  let ?h2 = "\<lambda>j. jdiv (jsub (jint ?r) (Fin j)) (jsub (jint ?r) (jint ?c))"
  let ?f1 = "fold (\<lambda>j f. wr_key f j (?h1 j)) (map (\<lambda>t. real_of_int ?l + real t) [0 ..< nat (?c - ?l)]) ?f0"
  let ?f2 = "fold (\<lambda>j f. wr_key f j (?h2 j)) (map (\<lambda>t. real_of_int ?c + real t) [0 ..< nat (?r - ?c)]) ?f1"
  have eq: "melFilter (map jint bs) n i = Returns ?f2"
    by (simp add: melFilter_def rds alloc counter_values_int Let_def)
  have f1: "length ?f1 = ?len"
    "\<And>x. x < ?len \<Longrightarrow> ?f1 ! x = (if ?l \<le> int x \<and> int x < ?l + int (nat (?c - ?l))
                                  then ?h1 (real x) else Fin 0)"
    using fold_ramp [of ?h1 ?l "nat (?c - ?l)" ?f0] by simp_all
  have f2: "length ?f2 = ?len"
    "\<And>x. x < ?len \<Longrightarrow> ?f2 ! x = (if ?c \<le> int x \<and> int x < ?c + int (nat (?r - ?c))
                                  then ?h2 (real x) else ?f1 ! x)"
    using fold_ramp [of ?h2 ?c "nat (?r - ?c)" ?f1] f1(1) by simp_all
  have "?f2 ! x = triangle ?l ?c ?r (int x)" if x: "x < ?len" for x
    unfolding f2(2) [OF x] f1(2) [OF x]
    by (auto simp: triangle_def jsub_def)
  with eq f2(1) show ?thesis by blast
qed


lemma omap_total:
  assumes "\<And>x. x \<in> set xs \<Longrightarrow> \<exists>y. f x = Returns y \<and> P x y"
  shows "\<exists>ys. omap f xs = Returns ys \<and> length ys = length xs
              \<and> (\<forall>k < length xs. P (xs ! k) (ys ! k))"
  using assms
proof (induction xs)
  case Nil
  show ?case by simp
next
  case (Cons x xs)
  from Cons.prems obtain y where y: "f x = Returns y" "P x y"
    by (meson list.set_intros(1))
  from Cons obtain ys where
    ys: "omap f xs = Returns ys" "length ys = length xs" "\<forall>k < length xs. P (xs ! k) (ys ! k)"
    by (meson list.set_intros(2))
  have "\<forall>k < length (x # xs). P ((x # xs) ! k) ((y # ys) ! k)"
    using y(2) ys(3) by (auto simp: nth_Cons split: nat.splits)
  with y(1) ys(1,2) show ?case by simp
qed


lemma omap_Returns_length: "omap f xs = Returns ys \<Longrightarrow> length ys = length xs"
  by (induction xs arbitrary: ys) (auto simp: obind_Returns_iff)



lemma filterbank_of_finite:
  assumes "0 \<le> n" "length bs = nat (m + 2)" "0 \<le> m"
  shows "\<exists>fb. filterbank_of (map jint bs) n m = Returns fb \<and> length fb = nat m
            \<and> (\<forall>i < nat m. length (fb ! i) = nat (n div 2 + 1)
                   \<and> (\<forall>x < nat (n div 2 + 1).
                         fb ! i ! x = triangle (bs ! i) (bs ! (i + 1)) (bs ! (i + 2)) (int x)))"
proof -
  let ?P = "\<lambda>i filter. length filter = nat (n div 2 + 1)
                   \<and> (\<forall>x < nat (n div 2 + 1).
                         filter ! x = triangle (bs ! i) (bs ! (i + 1)) (bs ! (i + 2)) (int x))"
  have "\<exists>y. melFilter (map jint bs) n i = Returns y \<and> ?P i y" if "i \<in> set [0 ..< nat m]" for i
  proof -
    from that assms(2,3) have "i + 2 < length bs" by (simp add: nat_add_distrib)
    from melFilter_finite [OF assms(1) this] show ?thesis .
  qed
  from omap_total [of "[0 ..< nat m]" "melFilter (map jint bs) n" ?P, OF this]
  obtain fb where
    fb: "omap (melFilter (map jint bs) n) [0 ..< nat m] = Returns fb"
        "length fb = length [0 ..< nat m]"
        "\<forall>k < length [0 ..< nat m]. ?P ([0 ..< nat m] ! k) (fb ! k)"
    by blast
  from fb(3) have "\<forall>i < nat m. ?P i (fb ! i)" by simp
  with fb(1,2) show ?thesis by (simp add: filterbank_of_def)
qed

lemma length_melFrame_of [simp]: "length (melFrame_of filterbank magnitudes) = length filterbank"
  by (simp add: melFrame_of_def)









section \<open>Configurations that are refused, accepted, or never completed\<close>








lemma sar1_zero [simp]: "sar1 0 = 0"
  by (simp add: sar1_def to_int32_def)













section \<open>Reconstruction without masks\<close>






lemma log2_4: "log 2 4 = 2"
proof -
  have "log 2 (2 ^ 2) = real 2" by (rule log_pow_cancel) simp_all
  then show ?thesis by simp
qed

lemma fft4: "FFT_new 4 = Inr \<lparr> fft_n = 4, fft_m = Fin 2, fft_cos = [Fin 1, Fin 0], fft_sin = [Fin 0, Fin 1] \<rparr>"
  by (simp add: FFT_new_def new_Float32Array_def trunc_def wr_def log2_4 upt_rec numeral_2_eq_2)

lemma cos_4pi3: "cos (4 * pi / 3) = - 1 / 2"
proof -
  have "cos (4 * pi / 3) = cos (2 * pi - 2 * pi / 3)" by (simp add: field_simps)
  also have "\<dots> = cos (2 * pi / 3)" by (rule cos_2pi_minus)
  finally show ?thesis by (simp add: cos_120)
qed

lemma hann4: "hanningWindow 4 = Inr [Fin 0, Fin (3/4), Fin (3/4), Fin 0]"
  by (simp add: hanningWindow_def new_Float32Array_def trunc_def wr_def upt_rec numeral_2_eq_2
      jsub_def cos_120 cos_4pi3 eval_nat_numeral)


lemmas eval_simps =
  bitrev_step_def bitrev_while.simps sar1_def shl_one_def to_int32_def stage_def
  butterfly_loop.simps butterfly_def rd_def wr_def rd_key_def jsub_def Let_def
  upt_rec numeral_2_eq_2 eval_nat_numeral

lemma upto_1_2: "[1..2] = [1, 2::int]"
  by (simp add: upto_rec1)

lemma forward4:
  "FFT_forward fft4_plan ([Fin a, Fin b, Fin c, Fin d], [Fin e, Fin f, Fin g, Fin h])
     = Some ([Fin (a + c + (b + d)), Fin (a - c + (f - h)), Fin (a + c - (b + d)), Fin (a - c - (f - h))],
             [Fin (e + g + (f + h)), Fin (e - g - (b - d)), Fin (e + g - (f + h)), Fin (e - g + (b - d))])"
  unfolding FFT_forward_def fft4_plan_def
  apply (simp add: eval_simps)
  apply (simp add: upto_1_2)
  apply (simp add: eval_simps)
  done


lemma inverse4:
  "FFT_inverse fft4_plan ([Fin a, Fin b, Fin c, Fin d], [Fin e, Fin f, Fin g, Fin h])
     = Some ([Fin ((a + c + (b + d)) / 4), Fin ((a - c - (f - h)) / 4),
              Fin ((a + c - (b + d)) / 4), Fin ((a - c + (f - h)) / 4)],
             [Fin ((e + g + (f + h)) / 4), Fin ((e - g + (b - d)) / 4),
              Fin ((e + g - (f + h)) / 4), Fin ((e - g - (b - d)) / 4)])"
proof -
  have neg: "fold (\<lambda>i im. wr im (int i) (jneg (rd im (int i)))) [0 ..< nat (fft_n fft4_plan)]
               [Fin e, Fin f, Fin g, Fin h] = [Fin (- e), Fin (- f), Fin (- g), Fin (- h)]"
    by (simp add: fft4_plan_def rd_def wr_def upt_rec eval_nat_numeral)
  show ?thesis
    unfolding FFT_inverse_def Let_def prod.case neg forward4
    by (simp add: fft4_plan_def rd_def wr_def upt_rec eval_nat_numeral field_simps)
qed

lemma roundtrip4:
  "case FFT_forward fft4_plan ([Fin a, Fin b, Fin c, Fin d], [Fin e, Fin f, Fin g, Fin h]) of
     None \<Rightarrow> False
   | Some X \<Rightarrow> FFT_inverse fft4_plan X
               = Some ([Fin a, Fin b, Fin c, Fin d], [Fin e, Fin f, Fin g, Fin h])"
  by (simp add: forward4 inverse4)

lemma frames_example:
  "accumulateFrames \<lparr> channelData = [Fin 1, Fin 2, Fin 3, Fin 4, Fin 5], sampleRate = Fin 16000 \<rparr>
      [] 4 1
     = Returns ([Fin 0, Fin (9/8), Fin (27/16), Fin 0, Fin 0],
                [Fin 0, Fin (9/16), Fin (9/16), Fin 0, Fin 0])"
proof -
  have nf: "numFrames_of (length [Fin 1, Fin 2, Fin 3, Fin 4, Fin 5]) 4 1 = Fin 1"
    by (simp add: numFrames_of_def)
  have al: "new_Float32Array (real (length [Fin 1, Fin 2, Fin 3, Fin 4, Fin 5]))
              = Inr [Fin 0, Fin 0, Fin 0, Fin 0, Fin 0]"
    unfolding new_Float32Array_nat by (simp add: eval_nat_numeral)
  have win: "windowed [Fin 1, Fin 2, Fin 3, Fin 4, Fin 5] [Fin 0, Fin (3/4), Fin (3/4), Fin 0] 4 0
               [Fin 0, Fin 0, Fin 0, Fin 0] = [Fin 0, Fin (3/2), Fin (9/4), Fin 0]"
    by (simp add: windowed_def rd_def wr_def upt_rec eval_nat_numeral)
  have fr: "reconstructFrame fft4_plan [Fin 0, Fin (3/4), Fin (3/4), Fin 0]
              [Fin 1, Fin 2, Fin 3, Fin 4, Fin 5] [] 4 1 (Fin 1) 0
              ([Fin 0, Fin 0, Fin 0, Fin 0, Fin 0], [Fin 0, Fin 0, Fin 0, Fin 0, Fin 0])
            = Returns ([Fin 0, Fin (9/8), Fin (27/16), Fin 0, Fin 0],
                       [Fin 0, Fin (9/16), Fin (9/16), Fin 0, Fin 0])"
    unfolding reconstructFrame_def Let_def
    by (simp add: new_Float32Array_def trunc_def eval_nat_numeral win forward4 applyMask_def
          inverse4 overlapAdd_def rd_def wr_def upt_rec)
  show ?thesis
    unfolding accumulateFrames_def Let_def AudioBuffer.select_convs nf al
    by (simp add: fft4 [folded fft4_plan_def] hann4 fr)
qed

lemma reconstruct_example:
  "reconstructSamples \<lparr> channelData = [Fin 1, Fin 2, Fin 3, Fin 4, Fin 5], sampleRate = Fin 16000 \<rparr>
      [] 4 1
     = Returns [Fin 0, Fin 2, Fin 3, Fin 0, Fin 0]"
  by (simp add: reconstructSamples_def frames_example normalize_def rd_def wr_def jgt_def
        upt_rec eval_nat_numeral)




lemma applyMask_empty [simp]: "applyMask [] timePos spectrum = spectrum"
  by (cases spectrum) (simp add: applyMask_def)




section \<open>Frame positions\<close>






section \<open>The weights of the mel filters\<close>

lemma melPoint_powr:
  assumes "0 < r"
  shows "melPoint r m i = 700 * ((1 + r / 1400) powr (real i / real_of_int (m + 1)) - 1)"
proof -
  let ?x = "1 + r / 1400"
  have x: "0 < ?x" using assms by (simp add: add_pos_pos)
  have x2: "1 + r / 2 / 700 = ?x" by simp
  have "a * (2595 * L) / M / 2595 = L * (a / M)" for a L M :: real
    by simp
  then have "real i * (2595 * log 10 ?x) / real_of_int (m + 1) / 2595
          = log 10 ?x * (real i / real_of_int (m + 1))"
    by (rule meta_spec)
  then have "10 powr (real i * (2595 * log 10 ?x) / real_of_int (m + 1) / 2595)
          = 10 powr (log 10 ?x * (real i / real_of_int (m + 1)))"
    by (rule arg_cong)
  also have "\<dots> = (10 powr log 10 ?x) powr (real i / real_of_int (m + 1))"
    by (rule powr_powr [symmetric])
  also have "10 powr log 10 ?x = ?x"
    using x by simp
  finally show ?thesis unfolding melPoint_def x2 by (rule arg_cong [where f = "\<lambda>v. 700 * (v - 1)"])
qed

lemma melPoint_mono:
  assumes "0 < r" "0 \<le> m" "i \<le> j"
  shows "melPoint r m i \<le> melPoint r m j"
proof -
  have "real i / real_of_int (m + 1) \<le> real j / real_of_int (m + 1)"
    using assms(2,3) by (simp add: divide_right_mono)
  moreover have "1 \<le> 1 + r / 1400" using assms(1) by simp
  ultimately have "(1 + r / 1400) powr (real i / real_of_int (m + 1))
                     \<le> (1 + r / 1400) powr (real j / real_of_int (m + 1))"
    by (rule powr_mono)
  then show ?thesis by (simp add: melPoint_powr [OF assms(1)])
qed

lemma melPoint_first: "0 < r \<Longrightarrow> melPoint r m 0 = 0"
  by (simp add: melPoint_powr add_pos_pos)

lemma melPoint_last:
  assumes "0 < r" "0 \<le> m"
  shows "melPoint r m (nat (m + 1)) = r / 2"
proof -
  have eq: "real (nat (m + 1)) = real_of_int (m + 1)"
    using assms(2) by (metis add_nonneg_nonneg of_nat_nat zero_le_one)
  have "0 < real_of_int (m + 1)" using assms(2) by linarith
  then have q: "real (nat (m + 1)) / real_of_int (m + 1) = 1"
    unfolding eq by (intro divide_self) simp
  have x: "0 < 1 + r / 1400" using assms(1) by (simp add: add_pos_pos)
  have "melPoint r m (nat (m + 1)) = 700 * ((1 + r / 1400) powr 1 - 1)"
    unfolding melPoint_powr [OF assms(1)] q ..
  also have "\<dots> = r / 2" using x by simp
  finally show ?thesis .
qed

lemma binPoint_mono:
  assumes "0 < r" "0 \<le> m" "0 \<le> n" "i \<le> j"
  shows "binPoint r n m i \<le> binPoint r n m j"
proof -
  have "real_of_int (n + 1) * melPoint r m i / r \<le> real_of_int (n + 1) * melPoint r m j / r"
    using melPoint_mono [OF assms(1,2,4)] assms(1,3)
    by (simp add: divide_right_mono mult_left_mono)
  then show ?thesis unfolding binPoint_def by (rule floor_mono)
qed

lemma binPoint_first: "0 < r \<Longrightarrow> binPoint r n m 0 = 0"
  by (simp add: binPoint_def melPoint_first)

lemma binPoint_last:
  assumes "0 < r" "0 \<le> m"
  shows "binPoint r n m (nat (m + 1)) = (n + 1) div 2"
proof -
  have "real_of_int (n + 1) * (r / 2) / r = real_of_int (n + 1) / 2"
    using assms(1) by simp
  then have "binPoint r n m (nat (m + 1)) = \<lfloor>real_of_int (n + 1) / 2\<rfloor>"
    unfolding binPoint_def melPoint_last [OF assms] by (rule arg_cong)
  also have "\<dots> = (n + 1) div 2"
    using floor_divide_of_int_eq [of "n + 1" 2] by simp
  finally show ?thesis .
qed

lemma triangle_finite: "is_finite (triangle l c r x)"
  by (simp add: triangle_def is_finite_def)

lemma triangle_left: "l < c \<Longrightarrow> triangle l c r l = Fin 0"
  by (simp add: triangle_def)

lemma triangle_centre: "l \<le> c \<Longrightarrow> c < r \<Longrightarrow> triangle l c r c = Fin 1"
  by (simp add: triangle_def)

lemma triangle_outside: "l \<le> c \<Longrightarrow> c \<le> r \<Longrightarrow> x < l \<or> r \<le> x \<Longrightarrow> triangle l c r x = Fin 0"
  by (auto simp: triangle_def)

lemma triangle_empty_rise: "l = c \<Longrightarrow> c < r \<Longrightarrow> triangle l c r l = Fin 1"
  by (simp add: triangle_def)

lemma triangle_empty_fall: "l \<le> c \<Longrightarrow> c = r \<Longrightarrow> triangle l c r c = Fin 0"
  by (simp add: triangle_def)



lemma power_129_above: "(65 / 2 :: real) < (103 / 100) ^ 129"
  by (simp add: power_divide)

lemma power_129_below_square: "(1031 / 1000 :: real) ^ 129 \<le> (65 / 2) ^ 2"
  by (simp add: power_divide)

lemma power_129_above_square: "(65 / 2 :: real) ^ 2 < (106 / 100) ^ 129"
  by (simp add: power_divide)

lemma root_less:
  fixes x y :: real
  assumes "0 \<le> x" "0 < y" "x < y ^ k" "0 < k"
  shows "x powr (1 / real k) < y"
proof -
  have "x powr (1 / real k) < (y ^ k) powr (1 / real k)"
    using assms by (intro powr_less_mono2) simp_all
  also have "(y ^ k) powr (1 / real k) = (y powr real k) powr (1 / real k)"
    using assms(2) by (simp add: powr_realpow)
  also have "\<dots> = y powr (real k * (1 / real k))"
    by (rule powr_powr)
  also have "\<dots> = y" using assms(2,4) by simp
  finally show ?thesis .
qed

lemma root_ge:
  fixes x y :: real
  assumes "0 < y" "y ^ k \<le> x" "0 < k"
  shows "y \<le> x powr (1 / real k)"
proof -
  have "(y ^ k) powr (1 / real k) \<le> x powr (1 / real k)"
    using assms by (intro powr_mono2) simp_all
  moreover have "(y ^ k) powr (1 / real k) = (y powr real k) powr (1 / real k)"
    using assms(1) by (simp add: powr_realpow)
  moreover have "\<dots> = y powr (real k * (1 / real k))"
    by (rule powr_powr)
  moreover have "\<dots> = y" using assms(1,3) by simp
  ultimately show ?thesis by simp
qed

lemma powr_ratio:
  fixes x :: real
  assumes "0 < x"
  shows "x powr (real j / real k) = (x ^ j) powr (1 / real k)"
proof -
  have "(x ^ j) powr (1 / real k) = (x powr real j) powr (1 / real k)"
    using assms by (simp add: powr_realpow)
  also have "\<dots> = x powr (real j * (1 / real k))" by (rule powr_powr)
  finally show ?thesis by simp
qed


lemma boundaryBins_finite:
  assumes "0 < r" "0 \<le> m"
  shows "boundaryBins (Fin r) n m = map jint (map (binPoint r n m) [0 ..< nat (m + 2)])"
  unfolding boundaryBins_def melPoints_of_finite [OF assms]
  by (simp add: binPoints_of_finite [OF assms(1)])

lemma filterbank_for_finite:
  assumes "0 < r" "0 \<le> m"
  shows "filterbank_for (Fin r) n m
           = filterbank_of (map jint (map (binPoint r n m) [0 ..< nat (m + 2)])) n m"
  unfolding filterbank_for_def melPoints_of_finite [OF assms]
  by (simp add: binPoints_of_finite [OF assms(1)] comp_def)

text \<open>
  Claim C4, as the code has it. For a finite positive sample rate, a window size and a number
  of mel bins that are not negative, the boundary bins are integers that do not decrease, from
  0 to \<open>\<lfloor>(n + 1) / 2\<rfloor>\<close>. Filter \<open>i\<close>, with boundary bins \<open>l \<le> c \<le> r\<close>, has \<open>\<lfloor>n / 2\<rfloor> + 1\<close>
  weights, so that every weight sits at a bin in \<open>[0, n/2]\<close>; its weight at bin \<open>x\<close> is
  \<open>(x - l) / (c - l)\<close> for \<open>l \<le> x < c\<close>, \<open>(r - x) / (r - c)\<close> for \<open>c \<le> x < r\<close> and 0 elsewhere,
  never NaN. Hence the weight is 0 at the left boundary bin when \<open>l < c\<close>, 1 at the centre bin
  when \<open>c < r\<close>, and 0 at the right boundary bin. A segment of width 0 contributes nothing:
  when \<open>l = c < r\<close> the weight at the left boundary bin, which is the centre bin, is 1, and
  when \<open>c = r\<close> the weight at the centre bin is 0.
\<close>

theorem mel_filter_weights:
  assumes "0 < r" "0 \<le> n" "0 \<le> m"
  shows "\<exists>bs fb.
           boundaryBins (Fin r) n m = map jint bs
           \<and> length bs = nat (m + 2) \<and> sorted bs
           \<and> bs ! 0 = 0 \<and> bs ! nat (m + 1) = (n + 1) div 2
           \<and> filterbank_for (Fin r) n m = Returns fb
           \<and> length fb = nat m
           \<and> (\<forall>i < nat m.
                 length (fb ! i) = nat (n div 2 + 1)
                 \<and> (\<forall>x < nat (n div 2 + 1).
                       fb ! i ! x = triangle (bs ! i) (bs ! (i + 1)) (bs ! (i + 2)) (int x)
                       \<and> is_finite (fb ! i ! x))
                 \<and> (bs ! i < bs ! (i + 1) \<longrightarrow>
                       triangle (bs ! i) (bs ! (i + 1)) (bs ! (i + 2)) (bs ! i) = Fin 0)
                 \<and> (bs ! (i + 1) < bs ! (i + 2) \<longrightarrow>
                       triangle (bs ! i) (bs ! (i + 1)) (bs ! (i + 2)) (bs ! (i + 1)) = Fin 1)
                 \<and> triangle (bs ! i) (bs ! (i + 1)) (bs ! (i + 2)) (bs ! (i + 2)) = Fin 0)"
proof -
  define bs where "bs = map (binPoint r n m) [0 ..< nat (m + 2)]"
  have len: "length bs = nat (m + 2)" by (simp add: bs_def)
  have srt: "sorted bs"
    unfolding sorted_iff_nth_mono bs_def
    using binPoint_mono [OF assms(1,3,2)] by simp
  have first: "bs ! 0 = 0"
    using assms(3) by (simp add: bs_def binPoint_first [OF assms(1)])
  have "nat (m + 1) < nat (m + 2)" using assms(3) by simp
  then have last: "bs ! nat (m + 1) = (n + 1) div 2"
    unfolding bs_def by (simp add: binPoint_last [OF assms(1,3)] del: upt_Suc)
  from filterbank_of_finite [OF assms(2) len assms(3)] obtain fb where
    fb: "filterbank_of (map jint bs) n m = Returns fb" "length fb = nat m"
        "\<forall>i < nat m. length (fb ! i) = nat (n div 2 + 1)
                   \<and> (\<forall>x < nat (n div 2 + 1).
                         fb ! i ! x = triangle (bs ! i) (bs ! (i + 1)) (bs ! (i + 2)) (int x))"
    by blast
  have mono: "bs ! i \<le> bs ! (i + 1)" "bs ! (i + 1) \<le> bs ! (i + 2)" if "i < nat m" for i
  proof -
    from that assms(3) have "i + 2 < length bs" unfolding len by (simp add: nat_add_distrib)
    then show "bs ! i \<le> bs ! (i + 1)" "bs ! (i + 1) \<le> bs ! (i + 2)"
      using sorted_nth_mono [OF srt] by simp_all
  qed
  have "\<forall>i < nat m.
          length (fb ! i) = nat (n div 2 + 1)
          \<and> (\<forall>x < nat (n div 2 + 1).
                fb ! i ! x = triangle (bs ! i) (bs ! (i + 1)) (bs ! (i + 2)) (int x)
                \<and> is_finite (fb ! i ! x))
          \<and> (bs ! i < bs ! (i + 1) \<longrightarrow>
                triangle (bs ! i) (bs ! (i + 1)) (bs ! (i + 2)) (bs ! i) = Fin 0)
          \<and> (bs ! (i + 1) < bs ! (i + 2) \<longrightarrow>
                triangle (bs ! i) (bs ! (i + 1)) (bs ! (i + 2)) (bs ! (i + 1)) = Fin 1)
          \<and> triangle (bs ! i) (bs ! (i + 1)) (bs ! (i + 2)) (bs ! (i + 2)) = Fin 0"
  proof (intro allI impI conjI)
    fix i assume i: "i < nat m"
    from fb(3) i show "length (fb ! i) = nat (n div 2 + 1)" by blast
    show "triangle (bs ! i) (bs ! (i + 1)) (bs ! (i + 2)) (bs ! i) = Fin 0"
      if "bs ! i < bs ! (i + 1)"
      using that by (rule triangle_left)
    show "triangle (bs ! i) (bs ! (i + 1)) (bs ! (i + 2)) (bs ! (i + 1)) = Fin 1"
      if "bs ! (i + 1) < bs ! (i + 2)"
      using mono(1) [OF i] that by (rule triangle_centre)
    show "triangle (bs ! i) (bs ! (i + 1)) (bs ! (i + 2)) (bs ! (i + 2)) = Fin 0"
      using mono [OF i] by (intro triangle_outside) simp_all
    fix x assume x: "x < nat (n div 2 + 1)"
    from fb(3) i x show "fb ! i ! x = triangle (bs ! i) (bs ! (i + 1)) (bs ! (i + 2)) (int x)"
      by blast
    then show "is_finite (fb ! i ! x)" by (simp add: triangle_finite)
  qed
  moreover have "boundaryBins (Fin r) n m = map jint bs"
    unfolding bs_def by (rule boundaryBins_finite [OF assms(1,3)])
  moreover have "filterbank_for (Fin r) n m = Returns fb"
    unfolding filterbank_for_finite [OF assms(1,3)] using fb(1) by (simp add: bs_def)
  ultimately show ?thesis
    using len srt first last fb(2) by blast
qed


lemma melPoint_default:
  "melPoint 44100 128 i = 700 * ((65 / 2) powr (real i / 129) - 1)"
proof -
  have "melPoint 44100 128 i = 700 * ((1 + 44100 / 1400) powr (real i / real_of_int (128 + 1)) - 1)"
    by (rule melPoint_powr) simp
  then show ?thesis by simp
qed

lemma first_root_bounds:
  "1 \<le> (65 / 2 :: real) powr (1 / 129)" "(65 / 2 :: real) powr (1 / 129) < 103 / 100"
proof -
  show "1 \<le> (65 / 2 :: real) powr (1 / 129)"
    by (rule ge_one_powr_ge_zero) simp_all
  have "(65 / 2 :: real) powr (1 / real 129) < 103 / 100"
    by (rule root_less [OF _ _ power_129_above]) simp_all
  then show "(65 / 2 :: real) powr (1 / 129) < 103 / 100" by simp
qed

lemma second_root_bounds:
  "1031 / 1000 \<le> (65 / 2 :: real) powr (2 / 129)" "(65 / 2 :: real) powr (2 / 129) < 106 / 100"
proof -
  have e: "(65 / 2 :: real) powr (2 / 129) = ((65 / 2) ^ 2) powr (1 / real 129)"
    using powr_ratio [of "65 / 2 :: real" 2 129] by simp
  have "1031 / 1000 \<le> ((65 / 2 :: real) ^ 2) powr (1 / real 129)"
    by (rule root_ge [OF _ power_129_below_square]) simp_all
  then show "1031 / 1000 \<le> (65 / 2 :: real) powr (2 / 129)" unfolding e .
  have "((65 / 2 :: real) ^ 2) powr (1 / real 129) < 106 / 100"
    by (rule root_less [OF _ _ power_129_above_square]) simp_all
  then show "(65 / 2 :: real) powr (2 / 129) < 106 / 100" unfolding e .
qed

lemma default_bins:
  "binPoint 44100 2048 128 0 = 0" "binPoint 44100 2048 128 1 = 0" "binPoint 44100 2048 128 2 = 1"
proof -
  show "binPoint 44100 2048 128 0 = 0" by (rule binPoint_first) simp
  have "\<lfloor>real_of_int (2048 + 1) * (700 * ((65 / 2) powr (real 1 / 129) - 1)) / 44100\<rfloor> = 0"
    using first_root_bounds by (intro floor_unique) simp_all
  then show "binPoint 44100 2048 128 1 = 0"
    unfolding binPoint_def melPoint_default .
  have "\<lfloor>real_of_int (2048 + 1) * (700 * ((65 / 2) powr (real 2 / 129) - 1)) / 44100\<rfloor> = 1"
    using second_root_bounds by (intro floor_unique) simp_all
  then show "binPoint 44100 2048 128 2 = 1"
    unfolding binPoint_def melPoint_default .
qed

text \<open>
  Claim C4 fails on the code. Under the default configuration (a window of 2048 samples, 128
  mel bins) at 44100 Hz the first three boundary bins are 0, 0 and 1: the left boundary bin of
  the first filter is its centre bin, and its weight there is 1, not 0.
\<close>

theorem mel_filter_weights_counterexample:
  "take 3 (boundaryBins (Fin 44100) 2048 128) = [Fin 0, Fin 0, Fin 1]
   \<and> filterWeight (Fin 44100) 2048 128 0 0 = Returns (Fin 1)"
proof -
  define bs where "bs = map (binPoint 44100 2048 128) [0 ..< nat (128 + 2)]"
  have len: "length bs = nat (128 + 2)" by (simp add: bs_def)
  have b: "bs ! 0 = 0" "bs ! 1 = 0" "bs ! 2 = 1"
    unfolding bs_def using default_bins by (simp_all add: numeral_2_eq_2 del: upt_Suc)
  have bins: "boundaryBins (Fin 44100) 2048 128 = map jint bs"
    unfolding bs_def by (rule boundaryBins_finite) simp_all
  have "take 3 bs = [bs ! 0, bs ! 1, bs ! 2]"
    using len by (simp add: take_Suc_conv_app_nth numeral_3_eq_3 numeral_2_eq_2)
  then have t: "take 3 (boundaryBins (Fin 44100) 2048 128) = [Fin 0, Fin 0, Fin 1]"
    unfolding bins take_map b by simp
  from filterbank_of_finite [OF _ len, of 2048] obtain fb where
    fb: "filterbank_of (map jint bs) 2048 128 = Returns fb"
        "\<forall>i < nat 128. length (fb ! i) = nat (2048 div 2 + 1)
                   \<and> (\<forall>x < nat (2048 div 2 + 1).
                         fb ! i ! x = triangle (bs ! i) (bs ! (i + 1)) (bs ! (i + 2)) (int x))"
    by auto
  from fb(2) have "fb ! 0 ! 0 = triangle (bs ! 0) (bs ! (0 + 1)) (bs ! (0 + 2)) (int 0)"
    by simp
  then have w: "fb ! 0 ! 0 = Fin 1"
    using b by (simp add: triangle_def numeral_2_eq_2)
  have "filterbank_for (Fin 44100) 2048 128 = Returns fb"
    using filterbank_for_finite [of 44100 128 2048] fb(1) by (simp add: bs_def)
  then have "filterWeight (Fin 44100) 2048 128 0 0 = Returns (Fin 1)"
    by (simp add: filterWeight_def w)
  with t show ?thesis by simp
qed

text \<open>
  The default configuration at 44100 Hz.
\<close>

theorem mel_filter_weights_witness:
  "(0::real) < 44100 \<and> (0::int) \<le> 2048 \<and> (0::int) \<le> 128
   \<and> (\<exists>bs fb.
         boundaryBins (Fin 44100) 2048 128 = map jint bs
         \<and> length bs = 130 \<and> sorted bs \<and> bs ! 0 = 0 \<and> bs ! 129 = 1024
         \<and> filterbank_for (Fin 44100) 2048 128 = Returns fb
         \<and> length fb = 128
         \<and> length (fb ! 0) = 1025
         \<and> fb ! 0 ! 0 = triangle (bs ! 0) (bs ! 1) (bs ! 2) 0)"
proof -
  from mel_filter_weights [of 44100 2048 128] obtain bs fb where
    a: "boundaryBins (Fin 44100) 2048 128 = map jint bs"
       "length bs = nat (128 + 2)" "sorted bs" "bs ! 0 = 0"
       "bs ! nat (128 + 1) = (2048 + 1) div 2"
       "filterbank_for (Fin 44100) 2048 128 = Returns fb" "length fb = nat 128"
       "\<forall>i < nat 128. length (fb ! i) = nat (2048 div 2 + 1)
            \<and> (\<forall>x < nat (2048 div 2 + 1).
                  fb ! i ! x = triangle (bs ! i) (bs ! (i + 1)) (bs ! (i + 2)) (int x)
                  \<and> is_finite (fb ! i ! x))
            \<and> (bs ! i < bs ! (i + 1) \<longrightarrow>
                  triangle (bs ! i) (bs ! (i + 1)) (bs ! (i + 2)) (bs ! i) = Fin 0)
            \<and> (bs ! (i + 1) < bs ! (i + 2) \<longrightarrow>
                  triangle (bs ! i) (bs ! (i + 1)) (bs ! (i + 2)) (bs ! (i + 1)) = Fin 1)
            \<and> triangle (bs ! i) (bs ! (i + 1)) (bs ! (i + 2)) (bs ! (i + 2)) = Fin 0"
    by auto
  from a(8) have "length (fb ! 0) = nat (2048 div 2 + 1)
      \<and> fb ! 0 ! 0 = triangle (bs ! 0) (bs ! (0 + 1)) (bs ! (0 + 2)) (int 0)"
    by simp
  with a(1-7) show ?thesis
    by (intro conjI exI [of _ bs] exI [of _ fb]) (simp_all add: numeral_2_eq_2)
qed

section \<open>The closing pass on an example\<close>

lemma applyMaskAndReconstruct_example:
  "applyMaskAndReconstruct
      [\<lparr> channelData = [Fin 1, Fin 2, Fin 3, Fin 4, Fin 5], sampleRate = Fin 16000 \<rparr>] 0 [] 4 1
     = Returns ([\<lparr> channelData = [Fin 1, Fin 2, Fin 3, Fin 4, Fin 5], sampleRate = Fin 16000 \<rparr>,
                 \<lparr> channelData = [Fin 0, Fin 2, Fin 3, Fin 0, Fin 0], sampleRate = Fin 16000 \<rparr>], 1)"
proof -
  let ?b = "\<lparr> channelData = [Fin 1, Fin 2, Fin 3, Fin 4, Fin 5], sampleRate = Fin 16000 \<rparr>"
  have "lookup [?b] 0 = Some ?b" by (simp add: lookup_def)
  from applyMaskAndReconstruct_eq [OF this, of "[]" 4 1] show ?thesis
    by (simp add: reconstruct_example)
qed

text \<open>
  Witness of C7 on the five samples 1, 2, 3, 4, 5 with a window of four and a hop of one: the
  accumulated energy is 9/16 at the samples 1 and 2, which are divided, and 0 at the others,
  which are left as they are.
\<close>

theorem normalization_example_witness:
  "lookup [\<lparr> channelData = [Fin 1, Fin 2, Fin 3, Fin 4, Fin 5], sampleRate = Fin 16000 \<rparr>] 0
     = Some \<lparr> channelData = [Fin 1, Fin 2, Fin 3, Fin 4, Fin 5], sampleRate = Fin 16000 \<rparr>
   \<and> applyMaskAndReconstruct
        [\<lparr> channelData = [Fin 1, Fin 2, Fin 3, Fin 4, Fin 5], sampleRate = Fin 16000 \<rparr>] 0 [] 4 1
       = Returns ([\<lparr> channelData = [Fin 1, Fin 2, Fin 3, Fin 4, Fin 5], sampleRate = Fin 16000 \<rparr>,
                   \<lparr> channelData = [Fin 0, Fin 2, Fin 3, Fin 0, Fin 0], sampleRate = Fin 16000 \<rparr>], 1)
   \<and> (\<exists>reconstructed norm_acc out.
         accumulateFrames
            \<lparr> channelData = [Fin 1, Fin 2, Fin 3, Fin 4, Fin 5], sampleRate = Fin 16000 \<rparr> [] 4 1
           = Returns (reconstructed, norm_acc)
         \<and> reconstructed = [Fin 0, Fin (9/8), Fin (27/16), Fin 0, Fin 0]
         \<and> norm_acc = [Fin 0, Fin (9/16), Fin (9/16), Fin 0, Fin 0]
         \<and> lookup [\<lparr> channelData = [Fin 1, Fin 2, Fin 3, Fin 4, Fin 5], sampleRate = Fin 16000 \<rparr>,
                    \<lparr> channelData = [Fin 0, Fin 2, Fin 3, Fin 0, Fin 0], sampleRate = Fin 16000 \<rparr>] 1
             = Some out
         \<and> jgt (norm_acc ! 1) (Fin (1 / 10 ^ 10))
         \<and> channelData out ! 1 = jdiv (reconstructed ! 1) (norm_acc ! 1)
         \<and> \<not> jgt (norm_acc ! 0) (Fin (1 / 10 ^ 10))
         \<and> channelData out ! 0 = reconstructed ! 0)"
proof -
  let ?b = "\<lparr> channelData = [Fin 1, Fin 2, Fin 3, Fin 4, Fin 5], sampleRate = Fin 16000 \<rparr>"
  let ?o = "\<lparr> channelData = [Fin 0, Fin 2, Fin 3, Fin 0, Fin 0], sampleRate = Fin 16000 \<rparr>"
  have h1: "lookup [?b] 0 = Some ?b" by (simp add: lookup_def)
  note h2 = applyMaskAndReconstruct_example
  from normalization_divides_only_above_epsilon [OF h1 h2] obtain reconstructed norm_acc out where
    c: "accumulateFrames ?b [] 4 1 = Returns (reconstructed, norm_acc)"
       "lookup [?b, ?o] 1 = Some out"
       "\<forall>i < length reconstructed.
                 channelData out ! i =
                   (if jgt (norm_acc ! i) (Fin (1 / 10 ^ 10))
                    then jdiv (reconstructed ! i) (norm_acc ! i)
                    else reconstructed ! i)
                 \<and> (jgt (norm_acc ! i) (Fin (1 / 10 ^ 10)) \<longrightarrow> norm_acc ! i \<noteq> Fin 0)
                 \<and> (is_finite (reconstructed ! i) \<longrightarrow> is_finite (channelData out ! i))"
    by blast
  from c(1) have v: "reconstructed = [Fin 0, Fin (9/8), Fin (27/16), Fin 0, Fin 0]"
    "norm_acc = [Fin 0, Fin (9/16), Fin (9/16), Fin 0, Fin 0]"
    by (simp_all add: frames_example)
  have g: "jgt (norm_acc ! 1) (Fin (1 / 10 ^ 10))" "\<not> jgt (norm_acc ! 0) (Fin (1 / 10 ^ 10))"
    unfolding v by (simp_all add: jgt_def)
  from c(3) have "channelData out ! 1 =
                   (if jgt (norm_acc ! 1) (Fin (1 / 10 ^ 10))
                    then jdiv (reconstructed ! 1) (norm_acc ! 1)
                    else reconstructed ! 1)"
    "channelData out ! 0 =
                   (if jgt (norm_acc ! 0) (Fin (1 / 10 ^ 10))
                    then jdiv (reconstructed ! 0) (norm_acc ! 0)
                    else reconstructed ! 0)"
    unfolding v by simp_all
  with g have "channelData out ! 1 = jdiv (reconstructed ! 1) (norm_acc ! 1)"
    "channelData out ! 0 = reconstructed ! 0"
    by simp_all
  with h1 h2 c(1,2) v g show ?thesis by blast
qed

end
